theory Spec2Isabelle
  imports Main "HOL-Library.AList"
begin

section \<open>Python strings\<close>

text \<open>
  A Python \<^verbatim>\<open>str\<close> is a sequence of Unicode code points; it is modelled as a list of
  natural numbers, so that \<^verbatim>\<open>strip\<close> sees every white-space code point of Python 3
  and not only the ASCII ones. Literals are written through \<open>S\<close>.
\<close>

type_synonym pystr = "nat list"

abbreviation S :: "string \<Rightarrow> pystr" where
  "S s \<equiv> map of_char s"

text \<open>\<^verbatim>\<open>str.isspace\<close> on one code point (the table of CPython 3).\<close>

definition isspace :: "nat \<Rightarrow> bool" where
  "isspace c =
     ((9 \<le> c \<and> c \<le> 13) \<or> (28 \<le> c \<and> c \<le> 32) \<or> c = 133 \<or> c = 160 \<or> c = 5760
      \<or> (8192 \<le> c \<and> c \<le> 8202) \<or> c = 8232 \<or> c = 8233 \<or> c = 8239 \<or> c = 8287
      \<or> c = 12288)"

definition strip :: "pystr \<Rightarrow> pystr" where
  "strip s = rev (dropWhile isspace (rev (dropWhile isspace s)))"

definition startswith :: "pystr \<Rightarrow> pystr \<Rightarrow> bool" where
  "startswith s p = (take (length p) s = p)"

definition endswith :: "pystr \<Rightarrow> pystr \<Rightarrow> bool" where
  "endswith s p = (drop (length s - length p) s = p)"

text \<open>\<^verbatim>\<open>s.split(sep)\<close> for a separator of one code point.\<close>

fun split :: "nat \<Rightarrow> pystr \<Rightarrow> pystr list" where
  "split sep [] = [[]]"
| "split sep (c # cs) =
     (if c = sep then [] # split sep cs
      else (case split sep cs of
              [] \<Rightarrow> [[c]]
            | l # ls \<Rightarrow> (c # l) # ls))"

text \<open>\<^verbatim>\<open>sep.join(xs)\<close>.\<close>

fun join :: "pystr \<Rightarrow> pystr list \<Rightarrow> pystr" where
  "join sep [] = []"
| "join sep [x] = x"
| "join sep (x # y # ys) = x @ sep @ join sep (y # ys)"

text \<open>
  \<^verbatim>\<open>s.replace(old, new)\<close>: the occurrences of \<open>old\<close> are replaced from the left and do not
  overlap. The counter is the number of code points of the occurrence just replaced that
  are still to be skipped.
\<close>

fun replace_from :: "pystr \<Rightarrow> pystr \<Rightarrow> nat \<Rightarrow> pystr \<Rightarrow> pystr" where
  "replace_from old new k [] = (if old = [] then new else [])"
| "replace_from old new k (c # cs) =
     (if 0 < k then replace_from old new (k - 1) cs
      else if old = [] then new @ c # replace_from old new 0 cs
      else if startswith (c # cs) old then new @ replace_from old new (length old - 1) cs
      else c # replace_from old new 0 cs)"

definition replace :: "pystr \<Rightarrow> pystr \<Rightarrow> pystr \<Rightarrow> pystr" where
  "replace s old new = replace_from old new 0 s"

text \<open>\<^verbatim>\<open>line[2:-2]\<close>.\<close>

definition slice_2_m2 :: "pystr \<Rightarrow> pystr" where
  "slice_2_m2 s = take (length s - 4) (drop 2 s)"

subsection \<open>The two fenced directives\<close>

text \<open>
  The source searches with the regular expressions
  \<^verbatim>\<open>"```(\n)?show\n(.*?)\n```"\<close> and \<^verbatim>\<open>"```(\n)?hide\n(.*?)\n```"\<close> under
  \<^verbatim>\<open>re.DOTALL\<close>. Such an expression matches at a position when the text there reads
  three backquotes, an optional newline, the keyword and a newline, and a newline followed
  by three backquotes occurs later; the lazy group 2 ends at the first such closing.
  A match is kept as (group 0, group 2).
\<close>

text \<open>The index of the first occurrence of \<open>p\<close> in \<open>s\<close>.\<close>

fun find_sub :: "pystr \<Rightarrow> pystr \<Rightarrow> nat option" where
  "find_sub p [] = (if p = [] then Some 0 else None)"
| "find_sub p (c # cs) =
     (if startswith (c # cs) p then Some 0
      else map_option Suc (find_sub p cs))"

definition fence_open :: "pystr \<Rightarrow> pystr \<Rightarrow> nat option" where
  "fence_open kw s =
     (if startswith s (S ''```'' @ S ''\<newline>'' @ kw @ S ''\<newline>'')
      then Some (length kw + 5)
      else if startswith s (S ''```'' @ kw @ S ''\<newline>'')
      then Some (length kw + 4)
      else None)"

definition match_here :: "pystr \<Rightarrow> pystr \<Rightarrow> (pystr \<times> pystr) option" where
  "match_here kw s =
     (case fence_open kw s of
        None \<Rightarrow> None
      | Some e \<Rightarrow>
          (case find_sub (S ''\<newline>```'') (drop e s) of
             None \<Rightarrow> None
           | Some c \<Rightarrow> Some (take (e + c + 4) s, take c (drop e s))))"

text \<open>\<^verbatim>\<open>re.search\<close>: the leftmost match.\<close>

fun re_search :: "pystr \<Rightarrow> pystr \<Rightarrow> (pystr \<times> pystr) option" where
  "re_search kw [] = match_here kw []"
| "re_search kw (c # cs) =
     (case match_here kw (c # cs) of
        Some m \<Rightarrow> Some m
      | None \<Rightarrow> re_search kw cs)"

text \<open>
  \<^verbatim>\<open>re.finditer\<close>: the successive matches, each search starting where the match before
  ended. The counter is the number of code points of the last match still to be skipped.
\<close>

fun re_finditer_from :: "pystr \<Rightarrow> nat \<Rightarrow> pystr \<Rightarrow> (pystr \<times> pystr) list" where
  "re_finditer_from kw k [] = []"
| "re_finditer_from kw k (c # cs) =
     (if 0 < k then re_finditer_from kw (k - 1) cs
      else (case match_here kw (c # cs) of
              Some m \<Rightarrow> m # re_finditer_from kw (length (fst m) - 1) cs
            | None \<Rightarrow> re_finditer_from kw 0 cs))"

definition re_finditer :: "pystr \<Rightarrow> pystr \<Rightarrow> (pystr \<times> pystr) list" where
  "re_finditer kw s = re_finditer_from kw 0 s"

section \<open>Exceptions and responses\<close>

text \<open>
  \<^verbatim>\<open>except Exception\<close> catches the instances of \<^verbatim>\<open>Exception\<close> and lets the other
  \<^verbatim>\<open>BaseException\<close>s through, so an exception carries which of the two it is.
\<close>

datatype exn = Exception pystr | BaseException pystr

fun is_Exception :: "exn \<Rightarrow> bool" where
  "is_Exception (Exception _) = True"
| "is_Exception (BaseException _) = False"

text \<open>
  One step of the generator that \<^verbatim>\<open>llm_inference\<close> returns gives a token, the value
  \<^verbatim>\<open>None\<close>, or an exception. A response is the finite list of its steps.
\<close>

datatype item = Token pystr | NoneToken | Fails exn

section \<open>The memory tree\<close>

datatype status = Pending | Success

text \<open>
  Modelled from the spec: the class \<^verbatim>\<open>MemoryNode\<close> of \<^verbatim>\<open>GeneralAgent.memory\<close> is not
  among the sources. The spec gives a node an id, a role, an action, a content, a status and
  a parent.
\<close>

record MemoryNode =
  node_id :: nat
  role :: pystr
  action :: pystr
  content :: pystr
  status :: status
  parent :: "nat option"

text \<open>
  Modelled from the spec: the constructor \<^verbatim>\<open>MemoryNode(role, action, content)\<close>; the
  node is pending and gets its id when the tree takes it.
\<close>

definition new_MemoryNode :: "pystr \<Rightarrow> pystr \<Rightarrow> pystr \<Rightarrow> MemoryNode" where
  "new_MemoryNode r a c =
     \<lparr>node_id = 0, role = r, action = a, content = c, status = Pending, parent = None\<rparr>"

text \<open>
  Modelled from the spec: the class \<^verbatim>\<open>Memory\<close> of \<^verbatim>\<open>GeneralAgent.memory\<close> is not among
  the sources. The tree is an arena of nodes addressed by id, kept in traversal order,
  with the cursor and the counter of ids.
\<close>

record Memory =
  nodes :: "MemoryNode list"
  current_node :: "nat option"
  next_id :: nat

text \<open>
  Modelled from the spec: ids are unique. The id given to a new node is beyond the counter
  and beyond every id in the tree.
\<close>

definition fresh_id :: "Memory \<Rightarrow> nat" where
  "fresh_id m = fold (\<lambda>n k. max k (Suc (node_id n))) (nodes m) (next_id m)"

text \<open>
  Modelled from the spec: \<^verbatim>\<open>add_node\<close> appends the node as a new root-level or
  cursor-relative leaf, assigns its id and sets its status to pending.
\<close>

definition add_node :: "Memory \<Rightarrow> MemoryNode \<Rightarrow> MemoryNode \<times> Memory" where
  "add_node m n =
     (let n' = n\<lparr>node_id := fresh_id m, status := Pending, parent := current_node m\<rparr>
      in (n', m\<lparr>nodes := nodes m @ [n'], next_id := Suc (fresh_id m)\<rparr>))"

text \<open>Modelled from the spec: the place of a successor in traversal order, right after its reference.\<close>

fun insert_after :: "nat \<Rightarrow> MemoryNode \<Rightarrow> MemoryNode list \<Rightarrow> MemoryNode list" where
  "insert_after r n [] = [n]"
| "insert_after r n (x # xs) =
     (if node_id x = r then x # n # xs else x # insert_after r n xs)"

text \<open>
  Modelled from the spec: \<^verbatim>\<open>add_node_after\<close> inserts the node as a child/successor of
  the reference node in traversal order and does not alter the reference's status.
\<close>

definition add_node_after :: "Memory \<Rightarrow> MemoryNode \<Rightarrow> MemoryNode \<Rightarrow> MemoryNode \<times> Memory" where
  "add_node_after m ref_node n =
     (let n' = n\<lparr>node_id := fresh_id m, parent := Some (node_id ref_node)\<rparr>
      in (n', m\<lparr>nodes := insert_after (node_id ref_node) n' (nodes m),
                next_id := Suc (fresh_id m)\<rparr>))"

text \<open>Modelled from the spec: \<^verbatim>\<open>success_node\<close> marks the status success; idempotent.\<close>

definition success_node :: "Memory \<Rightarrow> MemoryNode \<Rightarrow> Memory" where
  "success_node m n =
     m\<lparr>nodes := map (\<lambda>x. if node_id x = node_id n then x\<lparr>status := Success\<rparr> else x) (nodes m)\<rparr>"

text \<open>
  Modelled from the spec: \<^verbatim>\<open>delete_node\<close> removes the node and its status from the
  tree and leaves the remaining nodes as they are.
\<close>

definition delete_node :: "Memory \<Rightarrow> MemoryNode \<Rightarrow> Memory" where
  "delete_node m n = m\<lparr>nodes := filter (\<lambda>x. node_id x \<noteq> node_id n) (nodes m)\<rparr>"

text \<open>Modelled from the spec: \<^verbatim>\<open>set_current_node\<close> moves the cursor.\<close>

definition set_current_node :: "Memory \<Rightarrow> MemoryNode \<Rightarrow> Memory" where
  "set_current_node m n = m\<lparr>current_node := Some (node_id n)\<rparr>"

text \<open>
  Modelled from the spec: \<^verbatim>\<open>get_todo_node\<close> returns the next pending node in a
  deterministic order (here the earliest in traversal order), or nothing.
\<close>

definition get_todo_node :: "Memory \<Rightarrow> MemoryNode option" where
  "get_todo_node m = find (\<lambda>x. status x = Pending) (nodes m)"

text \<open>
  Modelled from the spec: \<^verbatim>\<open>get_node\<close>, which the spec does not describe, looks a node
  up by its id.
\<close>

definition get_node :: "Memory \<Rightarrow> nat \<Rightarrow> MemoryNode option" where
  "get_node m i = find (\<lambda>x. node_id x = i) (nodes m)"

text \<open>
  Modelled from the spec: the chain of ancestors of a node, from the root down to the node;
  the walk up the parent links is bounded by the number of steps given.
\<close>

fun ancestor_chain :: "nat \<Rightarrow> MemoryNode list \<Rightarrow> nat \<Rightarrow> MemoryNode list" where
  "ancestor_chain 0 ns i = []"
| "ancestor_chain (Suc k) ns i =
     (case find (\<lambda>x. node_id x = i) ns of
        None \<Rightarrow> []
      | Some n \<Rightarrow>
          (case parent n of
             None \<Rightarrow> []
           | Some p \<Rightarrow> ancestor_chain k ns p) @ [n])"

text \<open>
  Modelled from the spec: \<^verbatim>\<open>get_related_messages_for_node\<close> returns the ordered
  ancestor chain of (role, content) pairs from the root to the node, without the nodes of
  empty content.
\<close>

definition get_related_messages_for_node :: "Memory \<Rightarrow> MemoryNode \<Rightarrow> (pystr \<times> pystr) list" where
  "get_related_messages_for_node m n =
     map (\<lambda>x. (role x, content x))
       (filter (\<lambda>x. content x \<noteq> [])
          (ancestor_chain (length (nodes m)) (nodes m) (node_id n)))"

text \<open>
  The assignment \<^verbatim>\<open>answer_node.content = result\<close> of \<^verbatim>\<open>_execute_node\<close>, on the node
  object the tree holds.
\<close>

definition set_content :: "Memory \<Rightarrow> MemoryNode \<Rightarrow> pystr \<Rightarrow> Memory" where
  "set_content m n c =
     m\<lparr>nodes := map (\<lambda>x. if node_id x = node_id n then x\<lparr>content := c\<rparr> else x) (nodes m)\<rparr>"

section \<open>The agent (agent.py)\<close>

text \<open>The output interpreters, named as the attributes of \<^verbatim>\<open>Agent.__init__\<close>.\<close>

datatype interp =
  python_interpreter | bash_interpreter | applescript_interpreter | file_interpreter
  | ask_interpreter

definition output_interpreters :: "interp list" where
  "output_interpreters =
     [python_interpreter, bash_interpreter, applescript_interpreter, file_interpreter,
      ask_interpreter]"

text \<open>
  What the agent calls and does not define, as parameters over a state \<open>'w\<close> of the world
  outside the agent:
  \<^item> \<open>system_prompt\<close>: lines 92 to 107 of \<^verbatim>\<open>_execute_node\<close> (the requirements file, the
    tools, the clock and the template), which may raise;
  \<^item> \<open>llm_inference\<close>: the call may raise, or returns a response;
  \<^item> \<open>match_template\<close>: whether \<^verbatim>\<open>re.compile(interpreter.match_template, re.DOTALL).search\<close>
    finds a match in a text;
  \<^item> \<open>parse\<close>: an output interpreter's \<^verbatim>\<open>parse\<close>, which raises or returns the pair
    (output, is\_stop);
  \<^item> \<open>output_recall\<close>: the caller's callback; it may raise, and it (or a task that runs while
    it is awaited) may call \<^verbatim>\<open>Agent.stop\<close>, which the boolean tells;
  \<^item> \<open>plan_match\<close> and \<open>plan_parse\<close>: the input interpreter, which works on the memory;
  \<^item> \<open>yield\<close>: \<^verbatim>\<open>await asyncio.sleep(0)\<close>; the boolean tells whether a task that ran
    meanwhile called \<^verbatim>\<open>Agent.stop\<close>.
\<close>

record 'w env =
  system_prompt :: "'w \<Rightarrow> (exn + pystr) \<times> 'w"
  llm_inference :: "(pystr \<times> pystr) list \<Rightarrow> 'w \<Rightarrow> (exn + item list) \<times> 'w"
  match_template :: "interp \<Rightarrow> pystr \<Rightarrow> bool"
  parse :: "interp \<Rightarrow> pystr \<Rightarrow> 'w \<Rightarrow> (exn + pystr \<times> bool) \<times> 'w"
  output_recall :: "pystr option \<Rightarrow> 'w \<Rightarrow> (exn option \<times> bool) \<times> 'w"
  plan_match :: "pystr \<Rightarrow> bool"
  plan_parse :: "pystr \<Rightarrow> Memory \<Rightarrow> 'w \<Rightarrow> (exn + Memory) \<times> 'w"
  yield :: "'w \<Rightarrow> bool \<times> 'w"

text \<open>
  What an execution does to the outside, in order: a turn begins for a node, a step of the
  response is taken, the callback is called with an argument, an interpreter's
  \<^verbatim>\<open>parse\<close> is called on a text and raises or returns, the input interpreter's
  \<^verbatim>\<open>parse\<close> is called, and \<^verbatim>\<open>stop_event.is_set()\<close> is read.
\<close>

datatype event =
  Execute nat | Pull item | Recall "pystr option" | Parse interp pystr "exn + pystr \<times> bool"
  | PlanParse pystr | Poll bool

record 'w agent =
  memory :: Memory
  stop_event :: bool
  is_running :: bool
  world :: 'w
  trace :: "event list"

text \<open>\<^verbatim>\<open>Agent.stop\<close>.\<close>

definition stop :: "'w agent \<Rightarrow> 'w agent" where
  "stop s = s\<lparr>stop_event := True\<rparr>"

text \<open>\<^verbatim>\<open>await output_recall(x)\<close>: the exception it raised, if any.\<close>

definition recall :: "'w env \<Rightarrow> pystr option \<Rightarrow> 'w agent \<Rightarrow> exn option \<times> 'w agent" where
  "recall env x s =
     (case output_recall env x (world s) of
        ((r, stopped), w) \<Rightarrow>
          (r, s\<lparr>world := w, stop_event := (stop_event s \<or> stopped), trace := trace s @ [Recall x]\<rparr>))"

text \<open>
  The loop over \<^verbatim>\<open>self.output_interpreters\<close> (lines 129 to 136) on the text accumulated:
  the exception raised if any, \<^verbatim>\<open>is_break\<close> and \<^verbatim>\<open>is_stop\<close>. The variable
  \<^verbatim>\<open>is_stop\<close> is \<open>False\<close> until a \<^verbatim>\<open>parse\<close> has returned.
\<close>

fun dispatch ::
  "'w env \<Rightarrow> interp list \<Rightarrow> pystr \<Rightarrow> 'w agent \<Rightarrow> (exn option \<times> bool \<times> bool) \<times> 'w agent" where
  "dispatch env [] result s = ((None, False, False), s)"
| "dispatch env (i # is) result s =
     (if match_template env i result
      then (case parse env i result (world s) of
              (Inl e, w) \<Rightarrow>
                ((Some e, False, False),
                 s\<lparr>world := w, trace := trace s @ [Parse i result (Inl e)]\<rparr>)
            | (Inr (output, is_stop), w) \<Rightarrow>
                (case recall env (Some (S ''\<newline>'' @ output @ S ''\<newline>''))
                        (s\<lparr>world := w,
                           trace := trace s @ [Parse i result (Inr (output, is_stop))]\<rparr>) of
                   (Some e, s') \<Rightarrow> ((Some e, False, is_stop), s')
                 | (None, s') \<Rightarrow> ((None, True, is_stop), s')))
      else dispatch env is result s)"

text \<open>
  The loop over the response (lines 125 to 138): the exception raised if any, and the
  values of \<^verbatim>\<open>result\<close> and \<^verbatim>\<open>is_stop\<close> when the loop is left.
\<close>

fun stream ::
  "'w env \<Rightarrow> item list \<Rightarrow> pystr \<Rightarrow> 'w agent \<Rightarrow> (exn option \<times> pystr \<times> bool) \<times> 'w agent" where
  "stream env [] result s = ((None, result, False), s)"
| "stream env (Fails e # its) result s =
     ((Some e, result, False), s\<lparr>trace := trace s @ [Pull (Fails e)]\<rparr>)"
| "stream env (NoneToken # its) result s =
     ((None, result, False), s\<lparr>trace := trace s @ [Pull NoneToken]\<rparr>)"
| "stream env (Token t # its) result s =
     (case recall env (Some t) (s\<lparr>trace := trace s @ [Pull (Token t)]\<rparr>) of
        (Some e, s1) \<Rightarrow> ((Some e, result @ t, False), s1)
      | (None, s1) \<Rightarrow>
          (case dispatch env output_interpreters (result @ t) s1 of
             ((Some e, is_break, is_stop), s2) \<Rightarrow> ((Some e, result @ t, is_stop), s2)
           | ((None, is_break, is_stop), s2) \<Rightarrow>
               (if is_break then ((None, result @ t, is_stop), s2)
                else stream env its (result @ t) s2)))"

text \<open>
  The \<^verbatim>\<open>try\<close> suite (lines 121 to 144): the exception that left it, if any, with
  \<^verbatim>\<open>result\<close> and \<^verbatim>\<open>is_stop\<close> as they were then.
\<close>

definition try_suite ::
  "'w env \<Rightarrow> (pystr \<times> pystr) list \<Rightarrow> MemoryNode \<Rightarrow> MemoryNode \<Rightarrow> 'w agent
     \<Rightarrow> (exn option \<times> pystr \<times> bool) \<times> 'w agent" where
  "try_suite env messages node answer_node s =
     (case llm_inference env messages (world s) of
        (Inl e, w) \<Rightarrow> ((Some e, [], False), s\<lparr>world := w\<rparr>)
      | (Inr response, w) \<Rightarrow>
          (case stream env response [] (s\<lparr>world := w\<rparr>) of
             ((Some e, result, is_stop), s1) \<Rightarrow> ((Some e, result, is_stop), s1)
           | ((None, result, is_stop), s1) \<Rightarrow>
               (case recall env None s1 of
                  (Some e, s2) \<Rightarrow> ((Some e, result, is_stop), s2)
                | (None, s2) \<Rightarrow>
                    ((None, result, is_stop),
                     s2\<lparr>memory :=
                          success_node
                            (success_node (set_content (memory s2) answer_node result) node)
                            answer_node\<rparr>))))"

text \<open>The \<^verbatim>\<open>except Exception\<close> suite (lines 145 to 150).\<close>

definition except_suite ::
  "'w env \<Rightarrow> MemoryNode \<Rightarrow> MemoryNode \<Rightarrow> pystr \<Rightarrow> bool \<Rightarrow> 'w agent
     \<Rightarrow> (exn + nat \<times> bool) \<times> 'w agent" where
  "except_suite env node answer_node result is_stop s =
     (case recall env (Some result) s of
        (Some e, s1) \<Rightarrow> (Inl e, s1)
      | (None, s1) \<Rightarrow>
          (Inr (node_id node, is_stop), s1\<lparr>memory := delete_node (memory s1) answer_node\<rparr>))"

text \<open>
  The start of \<^verbatim>\<open>Agent._execute_node\<close> (lines 92 to 116), up to the \<^verbatim>\<open>try\<close>: the
  exception raised, or the messages and the answer node.
\<close>

definition begin_turn ::
  "'w env \<Rightarrow> MemoryNode \<Rightarrow> 'w agent
     \<Rightarrow> (exn + (pystr \<times> pystr) list \<times> MemoryNode) \<times> 'w agent" where
  "begin_turn env node s0 =
     (let s = s0\<lparr>trace := trace s0 @ [Execute (node_id node)]\<rparr>
      in case system_prompt env (world s) of
           (Inl e, w) \<Rightarrow> (Inl e, s\<lparr>world := w\<rparr>)
         | (Inr prompt, w) \<Rightarrow>
             (let messages =
                    (S ''system'', prompt) # get_related_messages_for_node (memory s) node;
                  ins =
                    add_node_after (memory s) node (new_MemoryNode (S ''system'') (S ''answer'') []);
                  answer_node = fst ins;
                  s1 = s\<lparr>world := w, memory := set_current_node (snd ins) answer_node\<rparr>
              in case (if action node = S ''plan''
                       then recall env (Some (S ''\<newline>['' @ content node @ S '']\<newline>'')) s1
                       else (None, s1)) of
                   (Some e, s2) \<Rightarrow> (Inl e, s2)
                 | (None, s2) \<Rightarrow> (Inr (messages, answer_node), s2)))"

text \<open>
  \<^verbatim>\<open>Agent._execute_node\<close>: the exception it raises, or the id of the node it returns
  and \<^verbatim>\<open>is_stop\<close>.
\<close>

definition execute_node ::
  "'w env \<Rightarrow> MemoryNode \<Rightarrow> 'w agent \<Rightarrow> (exn + nat \<times> bool) \<times> 'w agent" where
  "execute_node env node s =
     (case begin_turn env node s of
        (Inl e, s2) \<Rightarrow> (Inl e, s2)
      | (Inr (messages, answer_node), s2) \<Rightarrow>
          (case try_suite env messages node answer_node s2 of
             ((None, result, is_stop), s3) \<Rightarrow> (Inr (node_id answer_node, is_stop), s3)
           | ((Some e, result, is_stop), s3) \<Rightarrow>
               (if is_Exception e
                then except_suite env node answer_node result is_stop s3
                else (Inl e, s3))))"

text \<open>\<^verbatim>\<open>Agent._insert_node\<close>. An id that names no node has no node to insert after.\<close>

definition insert_node :: "Memory \<Rightarrow> pystr \<Rightarrow> nat option \<Rightarrow> exn + MemoryNode \<times> Memory" where
  "insert_node m input for_node_id =
     (let node = new_MemoryNode (S ''user'') (S ''input'') input
      in case for_node_id of
           None \<Rightarrow> Inr (add_node m node)
         | Some i \<Rightarrow>
             (case get_node m i of
                None \<Rightarrow> Inl (Exception (S ''get_node''))
              | Some for_node \<Rightarrow>
                  (case add_node_after m for_node node of
                     (node', m1) \<Rightarrow> Inr (node', success_node m1 for_node))))"

text \<open>
  The \<^verbatim>\<open>while\<close> loop of \<^verbatim>\<open>Agent.run\<close> (lines 63 to 76). The loop need not end, so it
  is given a number of iterations it may make, and \<open>None\<close> is the run that needs more;
  otherwise the result is the exception raised or the value returned (a node id or
  \<^verbatim>\<open>None\<close>).
\<close>

fun run_loop ::
  "nat \<Rightarrow> 'w env \<Rightarrow> MemoryNode option \<Rightarrow> 'w agent \<Rightarrow> ((exn + nat option) \<times> 'w agent) option" where
  "run_loop k env None s = Some (Inr None, s\<lparr>is_running := False\<rparr>)"
| "run_loop 0 env (Some todo_node) s = None"
| "run_loop (Suc k) env (Some todo_node) s =
     (case execute_node env todo_node s of
        (Inl e, s1) \<Rightarrow> Some (Inl e, s1)
      | (Inr (new_node_id, is_stop), s1) \<Rightarrow>
          (if is_stop then Some (Inr (Some new_node_id), s1)
           else (case yield env (world s1) of
                   (stopped, w) \<Rightarrow>
                     (let s2 = s1\<lparr>world := w, stop_event := (stop_event s1 \<or> stopped)\<rparr>;
                          s3 = s2\<lparr>trace := trace s2 @ [Poll (stop_event s2)]\<rparr>
                      in if stop_event s2 then Some (Inr None, s3\<lparr>is_running := False\<rparr>)
                         else run_loop k env (get_todo_node (memory s1)) s3))))"

text \<open>
  The input interpreters of \<^verbatim>\<open>Agent.run\<close> (lines 51 to 58); there is one, the plan
  interpreter.
\<close>

definition input_interpreter ::
  "'w env \<Rightarrow> MemoryNode \<Rightarrow> 'w agent \<Rightarrow> exn option \<times> 'w agent" where
  "input_interpreter env input_node s =
     (let s1 = s\<lparr>memory := set_current_node (memory s) input_node\<rparr>
      in if plan_match env (content input_node)
         then (case plan_parse env (content input_node) (memory s1) (world s1) of
                 (Inl e, w) \<Rightarrow>
                   (Some e, s1\<lparr>world := w, trace := trace s1 @ [PlanParse (content input_node)]\<rparr>)
               | (Inr m, w) \<Rightarrow>
                   (None, s1\<lparr>memory := m, world := w,
                              trace := trace s1 @ [PlanParse (content input_node)]\<rparr>))
         else (None, s1))"

text \<open>\<^verbatim>\<open>Agent.run\<close>, with the number of iterations its loop may make.\<close>

definition run ::
  "nat \<Rightarrow> 'w env \<Rightarrow> pystr option \<Rightarrow> nat option \<Rightarrow> 'w agent
     \<Rightarrow> ((exn + nat option) \<times> 'w agent) option" where
  "run k env input for_node_id s0 =
     (let s = s0\<lparr>is_running := True\<rparr>
      in case input of
           None \<Rightarrow> run_loop k env (get_todo_node (memory s)) s
         | Some inp \<Rightarrow>
             (case insert_node (memory s) inp for_node_id of
                Inl e \<Rightarrow> Some (Inl e, s)
              | Inr (input_node, m) \<Rightarrow>
                  (case input_interpreter env input_node (s\<lparr>memory := m\<rparr>) of
                     (Some e, s1) \<Rightarrow> Some (Inl e, s1)
                   | (None, s1) \<Rightarrow>
                       run_loop k env
                         (case get_todo_node (memory s1) of
                            Some n \<Rightarrow> Some n
                          | None \<Rightarrow> Some input_node)
                         s1)))"

section \<open>What a trace shows\<close>

text \<open>The arguments of the calls of the callback, in order.\<close>

fun recalled :: "event list \<Rightarrow> pystr option list" where
  "recalled [] = []"
| "recalled (Recall x # es) = x # recalled es"
| "recalled (e # es) = recalled es"

text \<open>The tokens taken from the response, in order.\<close>

fun pulled :: "event list \<Rightarrow> pystr list" where
  "pulled [] = []"
| "pulled (Pull (Token t) # es) = t # pulled es"
| "pulled (e # es) = pulled es"

text \<open>The number of steps taken from the response.\<close>

fun pulls :: "event list \<Rightarrow> nat" where
  "pulls [] = 0"
| "pulls (Pull x # es) = Suc (pulls es)"
| "pulls (e # es) = pulls es"

text \<open>The interpreters whose \<^verbatim>\<open>parse\<close> was called, in order.\<close>

fun parsed_by :: "event list \<Rightarrow> interp list" where
  "parsed_by [] = []"
| "parsed_by (Parse i b r # es) = i # parsed_by es"
| "parsed_by (e # es) = parsed_by es"

text \<open>The last value of \<^verbatim>\<open>is_stop\<close> that a \<^verbatim>\<open>parse\<close> returned, \<open>False\<close> when none did.\<close>

fun stop_set :: "bool \<Rightarrow> event list \<Rightarrow> bool" where
  "stop_set b [] = b"
| "stop_set b (Parse i t (Inr (out, st)) # es) = stop_set st es"
| "stop_set b (e # es) = stop_set b es"

text \<open>
  What the loop over the interpreters passes to the callback for the outputs that a
  \<^verbatim>\<open>parse\<close> returned (the output between two newlines, line 134), in order.
\<close>

fun outputs :: "event list \<Rightarrow> pystr option list" where
  "outputs [] = []"
| "outputs (Parse i b (Inr (out, st)) # es) = Some (S ''\<newline>'' @ out @ S ''\<newline>'') # outputs es"
| "outputs (e # es) = outputs es"

text \<open>The numbers of turns begun and of readings of the stop flag.\<close>

fun executes :: "event list \<Rightarrow> nat" where
  "executes [] = 0"
| "executes (Execute n # es) = Suc (executes es)"
| "executes (e # es) = executes es"

fun polls :: "event list \<Rightarrow> nat" where
  "polls [] = 0"
| "polls (Poll b # es) = Suc (polls es)"
| "polls (e # es) = polls es"

text \<open>The events an execution adds to the trace of the state it starts in.\<close>

definition new_events :: "'w agent \<Rightarrow> 'w agent \<Rightarrow> event list" where
  "new_events s s' = drop (length (trace s)) (trace s')"

section \<open>Environments in which only the guarded part of a turn raises\<close>

text \<open>
  The environments in which nothing raises outside the \<^verbatim>\<open>try\<close> suite of
  \<^verbatim>\<open>_execute_node\<close> and only instances of \<^verbatim>\<open>Exception\<close> are raised inside it: the
  system prompt is built, the callback returns, the input interpreter returns, and the call
  of the model, the steps of its responses and the interpreters raise nothing but
  \<^verbatim>\<open>Exception\<close>s.
\<close>

definition guarded_env :: "'w env \<Rightarrow> bool" where
  "guarded_env env \<longleftrightarrow>
     (\<forall>w. \<not> isl (fst (system_prompt env w)))
     \<and> (\<forall>x w. fst (fst (output_recall env x w)) = None)
     \<and> (\<forall>c m w. \<not> isl (fst (plan_parse env c m w)))
     \<and> (\<forall>ms w e. fst (llm_inference env ms w) = Inl e \<longrightarrow> is_Exception e)
     \<and> (\<forall>ms w r e. fst (llm_inference env ms w) = Inr r \<and> Fails e \<in> set r \<longrightarrow> is_Exception e)
     \<and> (\<forall>i b w e. fst (parse env i b w) = Inl e \<longrightarrow> is_Exception e)"

text \<open>The events of a turn: none reads the stop flag and none begins a turn.\<close>

definition inner :: "event list \<Rightarrow> bool" where
  "inner evs \<longleftrightarrow> polls evs = 0 \<and> executes evs = 0"

section \<open>The summary memory (summary\_memory.py)\<close>

record SummaryMemoryNode =
  key :: pystr
  content :: pystr
  show_flag :: bool
  childrens :: "pystr list"
  parents :: "pystr list"

text \<open>\<^verbatim>\<open>SummaryMemoryNode.__str__\<close>.\<close>

definition node_str :: "SummaryMemoryNode \<Rightarrow> pystr" where
  "node_str n = S ''<<'' @ key n @ S ''>>'' @ S ''\<newline>'' @ content n"

text \<open>
  The state of a \<^verbatim>\<open>SummaryMemory\<close>: the dictionary \<^verbatim>\<open>concepts\<close>, in insertion order as
  a Python \<^verbatim>\<open>dict\<close> keeps it, and the rows of the TinyDB table behind it.
\<close>

record SummaryMemory =
  concepts :: "(pystr \<times> SummaryMemoryNode) list"
  db :: "SummaryMemoryNode list"

definition db_insert :: "SummaryMemoryNode \<Rightarrow> SummaryMemoryNode list \<Rightarrow> SummaryMemoryNode list" where
  "db_insert n rows = rows @ [n]"

text \<open>\<^verbatim>\<open>db.upsert(row, Query().key == k)\<close>: every row of that key is updated, or the row is inserted.\<close>

definition db_upsert :: "SummaryMemoryNode \<Rightarrow> SummaryMemoryNode list \<Rightarrow> SummaryMemoryNode list" where
  "db_upsert n rows =
     (if list_ex (\<lambda>r. key r = key n) rows
      then map (\<lambda>r. if key r = key n then n else r) rows
      else rows @ [n])"

definition new_node :: "pystr \<Rightarrow> pystr \<Rightarrow> bool \<Rightarrow> SummaryMemoryNode" where
  "new_node k c sh = \<lparr>key = k, content = c, show_flag = sh, childrens = [], parents = []\<rparr>"

text \<open>
  \<^verbatim>\<open>SummaryMemory.__init__\<close>, from the rows the table holds: a store that loads
  no concept gets the concept \<open>ROOT\<close>.
\<close>

definition init :: "SummaryMemoryNode list \<Rightarrow> SummaryMemory" where
  "init rows =
     (let cs = fold (\<lambda>n d. AList.update (key n) n d) rows []
      in if length cs = 0
         then \<lparr>concepts = AList.update (S ''ROOT'') (new_node (S ''ROOT'') [] False) cs,
               db = db_insert (new_node (S ''ROOT'') [] False) rows\<rparr>
         else \<lparr>concepts = cs, db = rows\<rparr>)"

definition get_show_memory :: "SummaryMemory \<Rightarrow> pystr" where
  "get_show_memory sm =
     strip (join (S ''\<newline>\<newline>'')
       (map node_str
          (filter (\<lambda>n. show_flag n \<and> 0 < length (strip (content n)))
             (map snd (concepts sm)))))"

text \<open>The key a directive line names: the line stripped, and unwrapped when it reads \<open><<key>>\<close>.\<close>

definition line_key :: "pystr \<Rightarrow> pystr" where
  "line_key line =
     (let l = strip line
      in if startswith l (S ''<<'') \<and> endswith l (S ''>>'') then slice_2_m2 l else l)"

definition get_show_keys :: "pystr \<Rightarrow> pystr list \<times> (pystr \<times> pystr) option" where
  "get_show_keys content' =
     (case re_search (S ''show'') content' of
        None \<Rightarrow> ([], None)
      | Some m \<Rightarrow> (map line_key (split 10 (strip (snd m))), Some m))"

definition get_hide_keys :: "pystr \<Rightarrow> pystr list \<times> (pystr \<times> pystr) list" where
  "get_hide_keys content' =
     (let hide_matches = re_finditer (S ''hide'') (strip content')
      in (concat (map (\<lambda>m. map line_key (split 10 (strip (snd m)))) hide_matches),
          hide_matches))"

text \<open>The loop of \<^verbatim>\<open>get_nodes\<close> over the lines: the state is (nodes, key, value).\<close>

definition dict_get :: "(pystr \<times> pystr) list \<Rightarrow> pystr \<Rightarrow> pystr" where
  "dict_get d k = (case map_of d k of None \<Rightarrow> [] | Some v \<Rightarrow> v)"

definition is_title :: "pystr \<Rightarrow> bool" where
  "is_title line = (startswith line (S ''<<'') \<and> endswith line (S ''>>''))"

definition nodes_close :: "(pystr \<times> pystr) list \<Rightarrow> pystr option \<Rightarrow> pystr \<Rightarrow> (pystr \<times> pystr) list" where
  "nodes_close nds k v =
     (case k of
        None \<Rightarrow> nds
      | Some t \<Rightarrow> AList.update t (dict_get nds t @ v) nds)"

fun get_nodes_loop ::
  "pystr list \<Rightarrow> (pystr \<times> pystr) list \<Rightarrow> pystr option \<Rightarrow> pystr \<Rightarrow> (pystr \<times> pystr) list" where
  "get_nodes_loop [] nds k v = nodes_close nds k v"
| "get_nodes_loop (l # ls) nds k v =
     (let line = strip l
      in if length line = 0 then get_nodes_loop ls nds k v
         else if is_title line
         then get_nodes_loop ls (nodes_close nds k v)
                (Some (slice_2_m2 line)) (if k = None then v else [])
         else get_nodes_loop ls nds k (v @ line @ S ''\<newline>''))"

definition get_nodes :: "pystr \<Rightarrow> (pystr \<times> pystr) list" where
  "get_nodes content' =
     map (\<lambda>(k, v). (k, strip v)) (get_nodes_loop (split 10 (strip content')) [] None [])"

text \<open>\<^verbatim>\<open>_parse_block\<close>: the store after the upserts, and the pair the method returns.\<close>

definition upsert_block :: "pystr \<times> pystr \<Rightarrow> SummaryMemory \<Rightarrow> SummaryMemory" where
  "upsert_block kv sm =
     (let n = (case map_of (concepts sm) (fst kv) of
                 Some n0 \<Rightarrow> n0\<lparr>content := snd kv\<rparr>
               | None \<Rightarrow> new_node (fst kv) (snd kv) False)
      in \<lparr>concepts = AList.update (fst kv) n (concepts sm), db = db_upsert n (db sm)\<rparr>)"

definition parse_block :: "SummaryMemory \<Rightarrow> pystr \<Rightarrow> (bool \<times> pystr) \<times> SummaryMemory" where
  "parse_block sm content' = ((True, content'), fold upsert_block (get_nodes content') sm)"

text \<open>\<^verbatim>\<open>_parse_hide\<close>.\<close>

definition hide_key :: "pystr \<Rightarrow> SummaryMemory \<Rightarrow> SummaryMemory" where
  "hide_key k sm =
     (case map_of (concepts sm) k of
        Some n0 \<Rightarrow>
          \<lparr>concepts = AList.update k (n0\<lparr>show_flag := False\<rparr>) (concepts sm),
           db = db_upsert (n0\<lparr>show_flag := False\<rparr>) (db sm)\<rparr>
      | None \<Rightarrow>
          \<lparr>concepts = AList.update k (new_node k [] False) (concepts sm),
           db = db_insert (new_node k [] False) (db sm)\<rparr>)"

definition parse_hide :: "SummaryMemory \<Rightarrow> pystr \<Rightarrow> (bool \<times> pystr) \<times> SummaryMemory" where
  "parse_hide sm content' =
     (let keys = fst (get_hide_keys content')
      in if length keys = 0 then ((False, content'), sm)
         else ((True, fold (\<lambda>m c. replace c (fst m) []) (re_finditer (S ''hide'') content') content'),
               fold hide_key keys sm))"

text \<open>
  \<^verbatim>\<open>_parse_show\<close>. The method searches the text a second time with the same
  expression; where that search finds nothing, \<^verbatim>\<open>show_match.group(0)\<close> raises.
\<close>

definition show_key :: "pystr \<Rightarrow> SummaryMemory \<Rightarrow> SummaryMemory" where
  "show_key k sm =
     (case map_of (concepts sm) k of
        Some n0 \<Rightarrow>
          \<lparr>concepts = AList.update k (n0\<lparr>show_flag := True\<rparr>) (concepts sm),
           db = db_upsert (n0\<lparr>show_flag := True\<rparr>) (db sm)\<rparr>
      | None \<Rightarrow> sm)"

definition parse_show :: "SummaryMemory \<Rightarrow> pystr \<Rightarrow> (exn + bool \<times> pystr) \<times> SummaryMemory" where
  "parse_show sm content' =
     (let keys = fst (get_show_keys content')
      in if length keys = 0 then (Inr (False, content'), sm)
         else (let sm' = fold show_key keys sm;
                   replaced_value =
                     join (S ''\<newline>\<newline>'')
                       (concat (map (\<lambda>k. case map_of (concepts sm') k of
                                             Some n \<Rightarrow> [node_str n]
                                           | None \<Rightarrow> []) keys))
               in (case re_search (S ''show'') content' of
                     Some m \<Rightarrow> (Inr (True, replace content' (fst m) replaced_value), sm')
                   | None \<Rightarrow> (Inl (Exception (S ''AttributeError'')), sm'))))"

definition instant_parse :: "SummaryMemory \<Rightarrow> pystr \<Rightarrow> (exn + bool \<times> pystr) \<times> SummaryMemory" where
  "instant_parse sm content' = parse_show sm content'"

definition post_parse :: "SummaryMemory \<Rightarrow> pystr \<Rightarrow> (bool \<times> pystr) \<times> SummaryMemory" where
  "post_parse sm content' =
     (case parse_hide sm content' of
        ((hide_parsed, c1), sm1) \<Rightarrow>
          (case parse_block sm1 c1 of
             ((fold_parsed, c2), sm2) \<Rightarrow> ((fold_parsed \<or> hide_parsed, c2), sm2)))"




text \<open>
  The loop over the response in \<^verbatim>\<open>add_content\<close> (lines 110 to 118), with the optional
  callback: the exception raised, or \<^verbatim>\<open>parsed\<close> and \<^verbatim>\<open>result\<close> when the loop is left.
\<close>

fun token_loop ::
  "(pystr option \<Rightarrow> 'w \<Rightarrow> exn option \<times> 'w) option \<Rightarrow> item list \<Rightarrow> SummaryMemory \<Rightarrow> pystr \<Rightarrow> 'w
     \<Rightarrow> (exn + bool \<times> pystr) \<times> SummaryMemory \<times> 'w" where
  "token_loop rc [] sm result w = (Inr (False, result), sm, w)"
| "token_loop rc (Fails e # its) sm result w = (Inl e, sm, w)"
| "token_loop rc (NoneToken # its) sm result w =
     (case (case rc of None \<Rightarrow> (None, w) | Some f \<Rightarrow> f None w) of
        (Some e, w1) \<Rightarrow> (Inl e, sm, w1)
      | (None, w1) \<Rightarrow> token_loop rc its sm result w1)"
| "token_loop rc (Token t # its) sm result w =
     (case (case rc of None \<Rightarrow> (None, w) | Some f \<Rightarrow> f (Some t) w) of
        (Some e, w1) \<Rightarrow> (Inl e, sm, w1)
      | (None, w1) \<Rightarrow>
          (case instant_parse sm (result @ t) of
             (Inl e, sm1) \<Rightarrow> (Inl e, sm1, w1)
           | (Inr (parsed, r1), sm1) \<Rightarrow>
               (if parsed
                then (case post_parse sm1 r1 of
                        ((p2, r2), sm2) \<Rightarrow> (Inr (True, r2), sm2, w1))
                else token_loop rc its sm1 r1 w1)))"

text \<open>
  The \<^verbatim>\<open>while True\<close> loop of \<^verbatim>\<open>add_content\<close> (lines 97 to 121), which asks the model
  again after every show directive and need not end: it is given a number of iterations it
  may make, and \<open>None\<close> is the run that needs more. \<open>render\<close> is the rendering of
  \<^verbatim>\<open>prompt_template\<close> with its arguments \<^verbatim>\<open>nodes\<close> and \<^verbatim>\<open>new_text\<close>.
\<close>

fun add_content_loop ::
  "nat \<Rightarrow> ((pystr \<times> pystr) list \<Rightarrow> 'w \<Rightarrow> (exn + item list) \<times> 'w) \<Rightarrow> (pystr \<Rightarrow> pystr \<Rightarrow> pystr)
     \<Rightarrow> (pystr option \<Rightarrow> 'w \<Rightarrow> exn option \<times> 'w) option \<Rightarrow> pystr \<Rightarrow> SummaryMemory \<Rightarrow> pystr \<Rightarrow> 'w
     \<Rightarrow> (exn option \<times> SummaryMemory \<times> 'w) option" where
  "add_content_loop 0 llm render rc new_text sm result w = None"
| "add_content_loop (Suc k) llm render rc new_text sm result w =
     (let prompt =
            render
              (join (S ''\<newline>'')
                 (map node_str
                    (filter (\<lambda>n. show_flag n \<and> 0 < length (strip (content n)))
                       (map snd (concepts sm)))))
              new_text
      in case llm [(S ''system'', prompt @ result)] w of
           (Inl e, w1) \<Rightarrow> Some (Some e, sm, w1)
         | (Inr response, w1) \<Rightarrow>
             (case token_loop rc response sm result w1 of
                (Inl e, sm1, w2) \<Rightarrow> Some (Some e, sm1, w2)
              | (Inr (parsed, r1), sm1, w2) \<Rightarrow>
                  (if parsed then add_content_loop k llm render rc new_text sm1 r1 w2
                   else (case post_parse sm1 r1 of
                           ((p2, r2), sm2) \<Rightarrow> Some (None, sm2, w2)))))"

text \<open>\<^verbatim>\<open>SummaryMemory.add_content\<close>: the exception raised or the text returned, and the store.\<close>

definition add_content ::
  "nat \<Rightarrow> ((pystr \<times> pystr) list \<Rightarrow> 'w \<Rightarrow> (exn + item list) \<times> 'w) \<Rightarrow> (pystr \<Rightarrow> pystr \<Rightarrow> pystr)
     \<Rightarrow> (pystr option \<Rightarrow> 'w \<Rightarrow> exn option \<times> 'w) option \<Rightarrow> SummaryMemory \<Rightarrow> pystr \<Rightarrow> pystr \<Rightarrow> 'w
     \<Rightarrow> ((exn + pystr) \<times> SummaryMemory \<times> 'w) option" where
  "add_content k llm render rc sm input role' w =
     (if role' \<noteq> S ''user'' \<and> role' \<noteq> S ''system''
      then Some (Inl (Exception (S ''AssertionError'')), sm, w)
      else (case map_of (concepts sm) (S ''ROOT'') of
              None \<Rightarrow> Some (Inl (Exception (S ''KeyError'')), sm, w)
            | Some root_node \<Rightarrow>
                (case add_content_loop k llm render rc
                        (content root_node @ S ''\<newline>'' @ input) sm [] w of
                   None \<Rightarrow> None
                 | Some (Some e, sm1, w1) \<Rightarrow> Some (Inl e, sm1, w1)
                 | Some (None, sm1, w1) \<Rightarrow>
                     (case map_of (concepts sm1) (S ''ROOT'') of
                        None \<Rightarrow> Some (Inl (Exception (S ''KeyError'')), sm1, w1)
                      | Some r \<Rightarrow>
                          Some (Inr (get_show_memory sm1 @ S ''\<newline>'' @ content r), sm1, w1)))))"

text \<open>\<^verbatim>\<open>self.concepts['ROOT']\<close>, where the key is in the dictionary.\<close>

definition root_node :: "SummaryMemory \<Rightarrow> SummaryMemoryNode option" where
  "root_node sm = map_of (concepts sm) (S ''ROOT'')"

subsection \<open>The blocks of a text, in words\<close>

text \<open>
  The lines \<^verbatim>\<open>get_nodes\<close> works on: the lines of the stripped text, each stripped, the
  blank ones left out.
\<close>

definition text_lines :: "pystr \<Rightarrow> pystr list" where
  "text_lines content' = filter (\<lambda>l. l \<noteq> []) (map strip (split 10 (strip content')))"

text \<open>
  The blocks of such lines as claim C6, amended, words them: every title line gives a
  block, of its title and of the lines after it up to the next title line or the end.
\<close>

fun blocks_of :: "pystr list \<Rightarrow> (pystr \<times> pystr list) list" where
  "blocks_of [] = []"
| "blocks_of (l # ls) =
     (if is_title l then (slice_2_m2 l, takeWhile (\<lambda>x. \<not> is_title x) ls) # blocks_of ls
      else blocks_of ls)"

text \<open>The body of a title: the lines of all the blocks of that title, joined by newlines.\<close>

definition body_of :: "pystr \<Rightarrow> pystr list \<Rightarrow> pystr" where
  "body_of k ls =
     join (S ''\<newline>'') (concat (map snd (filter (\<lambda>b. fst b = k) (blocks_of ls))))"

text \<open>Lines put one after the other, each followed by a newline, as the loop accumulates them.\<close>

definition unlines :: "pystr list \<Rightarrow> pystr" where
  "unlines ls = concat (map (\<lambda>x. x @ S ''\<newline>'') ls)"

section \<open>The structure of a plan\<close>

text \<open>
  Modelled from the spec: \<^verbatim>\<open>structure_plan\<close> is imported by the test from
  \<^verbatim>\<open>GeneralAgent.agent\<close> and is not among the sources. The spec (section 4.3) has it
  structure numbered, indented text into a hierarchy: the top-level items become siblings,
  and the items indented deeper than an item become its children, recursively. The test
  reads the result as a dict from the text of an item to the dict of its children, in the
  order of the text; it is modelled as the list of the items in that order, each with its
  children.
\<close>

datatype plan = Plan "(pystr \<times> plan) list"






section \<open>Example environments and states\<close>

text \<open>An agent that has run nothing yet, on a world with nothing in it.\<close>

definition empty_memory :: Memory where
  "empty_memory = \<lparr>nodes = [], current_node = None, next_id = 0\<rparr>"

definition fresh_agent :: "unit agent" where
  "fresh_agent =
     \<lparr>memory = empty_memory, stop_event = False, is_running = False, world = (), trace = []\<rparr>"

text \<open>An agent whose memory holds one pending input node, \<open>hi\<close>.\<close>

definition hi_node :: MemoryNode where
  "hi_node =
     \<lparr>node_id = 0, role = S ''user'', action = S ''input'', content = S ''hi'',
      status = Pending, parent = None\<rparr>"

definition hi_agent :: "unit agent" where
  "hi_agent =
     \<lparr>memory = \<lparr>nodes = [hi_node], current_node = Some 0, next_id = 1\<rparr>,
      stop_event = False, is_running = False, world = (), trace = []\<rparr>"

text \<open>
  An environment by its script: the model answers with the response given, the
  interpreters given match every text and return the output \<open>out\<close> with the
  \<^verbatim>\<open>is_stop\<close> given, the callback does what the function given says (the exception it
  raises, and whether it calls \<^verbatim>\<open>Agent.stop\<close>), and no plan is found in an input.
\<close>

definition script_env ::
  "item list \<Rightarrow> interp list \<Rightarrow> bool \<Rightarrow> (pystr option \<Rightarrow> exn option \<times> bool) \<Rightarrow> unit env" where
  "script_env response matching is_stop callback =
     \<lparr>system_prompt = (\<lambda>w. (Inr [], w)),
      llm_inference = (\<lambda>messages w. (Inr response, w)),
      match_template = (\<lambda>i buf. i \<in> set matching),
      parse = (\<lambda>i buf w. (Inr (S ''out'', is_stop), w)),
      output_recall = (\<lambda>x w. (callback x, w)),
      plan_match = (\<lambda>c. False),
      plan_parse = (\<lambda>c m w. (Inr m, w)),
      yield = (\<lambda>w. (False, w))\<rparr>"

text \<open>The callback that returns, and the one that raises whatever it is given.\<close>

definition returns :: "pystr option \<Rightarrow> exn option \<times> bool" where
  "returns x = (None, False)"

definition raises :: "pystr option \<Rightarrow> exn option \<times> bool" where
  "raises x = (Some (Exception (S ''callback'')), False)"

text \<open>The callback that returns and calls \<^verbatim>\<open>Agent.stop\<close>.\<close>

definition stops :: "pystr option \<Rightarrow> exn option \<times> bool" where
  "stops x = (None, True)"

section \<open>Properties of the summary memory\<close>

lemmas str_defs = strip_def isspace_def startswith_def endswith_def slice_2_m2_def replace_def
  fence_open_def match_here_def re_finditer_def line_key_def

subsection \<open>What the directives do to the concepts\<close>

lemma map_of_hide_key:
  "map_of (concepts (hide_key a sm)) k =
     (if k = a
      then Some (case map_of (concepts sm) a of
                   Some n \<Rightarrow> n\<lparr>show_flag := False\<rparr>
                 | None \<Rightarrow> new_node a [] False)
      else map_of (concepts sm) k)"
  by (simp add: hide_key_def update_conv' split: option.splits)

lemma map_of_fold_hide_key:
  "map_of (concepts (fold hide_key ks sm)) k =
     (if k \<in> set ks
      then Some (case map_of (concepts sm) k of
                   Some n \<Rightarrow> n\<lparr>show_flag := False\<rparr>
                 | None \<Rightarrow> new_node k [] False)
      else map_of (concepts sm) k)"
proof (induction ks arbitrary: sm)
  case Nil
  then show ?case by simp
next
  case (Cons a ks)
  show ?case
    by (simp add: Cons.IH map_of_hide_key new_node_def split: option.splits)
qed

lemma map_of_show_key:
  "map_of (concepts (show_key a sm)) k =
     (if k = a then map_option (\<lambda>n. n\<lparr>show_flag := True\<rparr>) (map_of (concepts sm) a)
      else map_of (concepts sm) k)"
  by (simp add: show_key_def update_conv' split: option.splits)

lemma map_of_fold_show_key:
  "map_of (concepts (fold show_key ks sm)) k =
     (if k \<in> set ks then map_option (\<lambda>n. n\<lparr>show_flag := True\<rparr>) (map_of (concepts sm) k)
      else map_of (concepts sm) k)"
proof (induction ks arbitrary: sm)
  case Nil
  then show ?case by simp
next
  case (Cons a ks)
  show ?case
    by (cases "map_of (concepts sm) k") (auto simp add: Cons.IH map_of_show_key)
qed

lemma parse_show_returns: "\<exists>r. fst (parse_show sm c) = Inr r"
  by (auto simp add: parse_show_def get_show_keys_def Let_def split: option.splits)

lemma concepts_parse_show:
  "concepts (snd (parse_show sm c)) = concepts (fold show_key (fst (get_show_keys c)) sm)"
  by (simp add: parse_show_def get_show_keys_def Let_def split: option.splits)

lemma concepts_parse_hide:
  "concepts (snd (parse_hide sm c)) = concepts (fold hide_key (fst (get_hide_keys c)) sm)"
  by (simp add: parse_hide_def Let_def)

subsection \<open>No pass removes a concept\<close>

lemma map_of_upsert_block:
  "map_of (concepts (upsert_block kv sm)) k =
     (if k = fst kv
      then Some (case map_of (concepts sm) k of
                   Some n \<Rightarrow> n\<lparr>content := snd kv\<rparr>
                 | None \<Rightarrow> new_node k (snd kv) False)
      else map_of (concepts sm) k)"
  by (simp add: upsert_block_def Let_def update_conv' split: option.splits)

lemma map_of_fold_upsert_block:
  "distinct (map fst kvs) \<Longrightarrow>
   map_of (concepts (fold upsert_block kvs sm)) k =
     (case map_of kvs k of
        None \<Rightarrow> map_of (concepts sm) k
      | Some v \<Rightarrow> Some (case map_of (concepts sm) k of
                         Some n \<Rightarrow> n\<lparr>content := v\<rparr>
                       | None \<Rightarrow> new_node k v False))"
proof (induction kvs arbitrary: sm)
  case Nil
  then show ?case by simp
next
  case (Cons a kvs)
  then have d: "distinct (map fst kvs)" and n: "fst a \<notin> fst ` set kvs"
    by auto
  from n have m: "map_of kvs (fst a) = None"
    by (simp add: map_of_eq_None_iff)
  show ?case
    using m by (cases a) (auto simp add: Cons.IH [OF d] map_of_upsert_block split: option.splits)
qed

lemma distinct_nodes_close:
  "distinct (map fst nds) \<Longrightarrow> distinct (map fst (nodes_close nds k v))"
  by (simp add: nodes_close_def distinct_update split: option.splits)

lemma distinct_get_nodes_loop:
  "distinct (map fst nds) \<Longrightarrow> distinct (map fst (get_nodes_loop ls nds k v))"
  by (induction ls arbitrary: nds k v) (simp_all add: distinct_nodes_close Let_def)

lemma distinct_get_nodes: "distinct (map fst (get_nodes c))"
proof -
  have "map fst (get_nodes c) = map fst (get_nodes_loop (split 10 (strip c)) [] None [])"
    by (simp add: get_nodes_def case_prod_beta comp_def)
  then show ?thesis
    by (simp add: distinct_get_nodes_loop)
qed

lemma concepts_parse_block:
  "concepts (snd (parse_block sm c)) = concepts (fold upsert_block (get_nodes c) sm)"
  by (simp add: parse_block_def)

lemma map_of_parse_block:
  "map_of (concepts (snd (parse_block sm c))) k =
     (case map_of (get_nodes c) k of
        None \<Rightarrow> map_of (concepts sm) k
      | Some v \<Rightarrow> Some (case map_of (concepts sm) k of
                         Some n \<Rightarrow> n\<lparr>content := v\<rparr>
                       | None \<Rightarrow> new_node k v False))"
  by (simp add: concepts_parse_block map_of_fold_upsert_block [OF distinct_get_nodes])

text \<open>No pass removes a key.\<close>

lemma parse_show_keeps: "map_of (concepts sm) k \<noteq> None \<Longrightarrow> map_of (concepts (snd (parse_show sm c))) k \<noteq> None"
  by (simp add: concepts_parse_show map_of_fold_show_key)

lemma parse_hide_keeps: "map_of (concepts sm) k \<noteq> None \<Longrightarrow> map_of (concepts (snd (parse_hide sm c))) k \<noteq> None"
  by (simp add: concepts_parse_hide map_of_fold_hide_key)

lemma parse_block_keeps: "map_of (concepts sm) k \<noteq> None \<Longrightarrow> map_of (concepts (snd (parse_block sm c))) k \<noteq> None"
  by (simp add: map_of_parse_block split: option.splits)

lemma post_parse_keeps: "map_of (concepts sm) k \<noteq> None \<Longrightarrow> map_of (concepts (snd (post_parse sm c))) k \<noteq> None"
proof -
  assume a: "map_of (concepts sm) k \<noteq> None"
  obtain h c1 sm1 where p: "parse_hide sm c = ((h, c1), sm1)"
    by (metis prod.exhaust)
  obtain f c2 sm2 where q: "parse_block sm1 c1 = ((f, c2), sm2)"
    by (metis prod.exhaust)
  from a p have "map_of (concepts sm1) k \<noteq> None"
    using parse_hide_keeps [of sm k c] by simp
  with q have "map_of (concepts sm2) k \<noteq> None"
    using parse_block_keeps [of sm1 k c1] by simp
  with p q show ?thesis
    by (simp add: post_parse_def)
qed

lemma token_loop_keeps:
  "map_of (concepts sm) k \<noteq> None \<Longrightarrow> token_loop rc its sm result w = (r, sm', w') \<Longrightarrow>
   map_of (concepts sm') k \<noteq> None"
proof (induction rc its sm result w rule: token_loop.induct)
  case (1 rc sm result w)
  then show ?case by simp
next
  case (2 rc e its sm result w)
  then show ?case by simp
next
  case (3 rc its sm result w)
  then show ?case
    by (auto split: option.splits prod.splits)
next
  case (4 rc t its sm result w)
  obtain cb w1 where cb: "(case rc of None \<Rightarrow> (None, w) | Some f \<Rightarrow> f (Some t) w) = (cb, w1)"
    by (metis prod.exhaust)
  show ?case
  proof (cases cb)
    case (Some e)
    with 4 cb show ?thesis by simp
  next
    case None
    obtain pr sm1 where ip: "instant_parse sm (result @ t) = (pr, sm1)"
      by (metis prod.exhaust)
    have k1: "map_of (concepts sm1) k \<noteq> None"
      using parse_show_keeps [OF "4.prems"(1), of "result @ t"] ip
      by (simp add: instant_parse_def)
    show ?thesis
    proof (cases pr)
      case (Inl e)
      with 4 cb None ip k1 show ?thesis by simp
    next
      case (Inr pq)
      obtain parsed r1 where pq: "pq = (parsed, r1)"
        by (metis prod.exhaust)
      show ?thesis
      proof (cases parsed)
        case True
        obtain x sm2 where pp: "post_parse sm1 r1 = (x, sm2)"
          by (metis prod.exhaust)
        have "map_of (concepts sm2) k \<noteq> None"
          using post_parse_keeps [OF k1, of r1] pp by simp
        with "4.prems"(2) cb None ip Inr pq True pp show ?thesis
          by (auto split: prod.splits)
      next
        case False
        from "4.IH" [OF cb [symmetric] None ip [symmetric] Inr pq [symmetric] False k1]
          "4.prems"(2) cb None ip Inr pq False
        show ?thesis by simp
      qed
    qed
  qed
qed

lemma post_parse_keeps':
  "post_parse sm c = (x, sm') \<Longrightarrow> map_of (concepts sm) k \<noteq> None \<Longrightarrow> map_of (concepts sm') k \<noteq> None"
  using post_parse_keeps [of sm k c] by simp

lemma token_loop_keeps':
  "token_loop rc its sm result w = (r, sm', w') \<Longrightarrow> map_of (concepts sm) k \<noteq> None \<Longrightarrow>
   map_of (concepts sm') k \<noteq> None"
  by (rule token_loop_keeps)

lemma add_content_loop_keeps:
  "map_of (concepts sm) k \<noteq> None \<Longrightarrow>
   add_content_loop n llm render rc new_text sm result w = Some (r, sm', w') \<Longrightarrow>
   map_of (concepts sm') k \<noteq> None"
proof (induction n arbitrary: sm result w)
  case 0
  then show ?case by simp
next
  case (Suc n)
  from Suc.prems(2) Suc.prems(1) show ?case
    apply (simp only: add_content_loop.simps Let_def)
    apply (split prod.splits sum.splits)+
    apply (auto split: if_splits prod.splits sum.splits
        dest: token_loop_keeps' [OF _ Suc.prems(1)] post_parse_keeps' Suc.IH [rotated])
    done
qed

lemma add_content_keeps:
  "map_of (concepts sm) k \<noteq> None \<Longrightarrow>
   add_content n llm render rc sm input role' w = Some (r, sm', w') \<Longrightarrow>
   map_of (concepts sm') k \<noteq> None"
  apply (simp only: add_content_def)
  apply (split if_splits option.splits)+
  apply (auto split: if_splits option.splits prod.splits
      dest: add_content_loop_keeps [rotated])
  done

lemma shown_without_hidden:
  "distinct (map fst cs) \<Longrightarrow> map_of cs k = Some n \<Longrightarrow> \<not> show_flag n \<Longrightarrow>
   filter (\<lambda>n. show_flag n \<and> P n) (map snd cs)
     = filter (\<lambda>n. show_flag n \<and> P n) (map snd (filter (\<lambda>p. fst p \<noteq> k) cs))"
proof (induction cs)
  case Nil
  then show ?case by simp
next
  case (Cons a cs)
  show ?case
  proof (cases "fst a = k")
    case True
    with Cons.prems have "snd a = n" and "k \<notin> fst ` set cs"
      by (cases a; auto)+
    then have "filter (\<lambda>p. fst p \<noteq> k) cs = cs"
      by (auto simp add: filter_id_conv)
    with True \<open>snd a = n\<close> Cons.prems(3) show ?thesis by simp
  next
    case False
    with Cons.prems have "distinct (map fst cs)" and "map_of cs k = Some n"
      by (cases a; auto)+
    from Cons.IH [OF this Cons.prems(3)] False show ?thesis by simp
  qed
qed



lemma get_show_memory_without_root:
  "distinct (map fst (concepts sm)) \<Longrightarrow> root_node sm = Some n \<Longrightarrow> \<not> show_flag n \<Longrightarrow>
   get_show_memory sm
     = get_show_memory (sm\<lparr>concepts := filter (\<lambda>p. fst p \<noteq> S ''ROOT'') (concepts sm)\<rparr>)"
  using shown_without_hidden [of "concepts sm" "S ''ROOT''" n "\<lambda>n. 0 < length (strip (content n))"]
  by (simp add: get_show_memory_def root_node_def)

lemma distinct_fold_update:
  "distinct (map fst acc) \<Longrightarrow> distinct (map fst (fold (\<lambda>n d. AList.update (key n) n d) rows acc))"
  by (induction rows arbitrary: acc) (simp_all add: distinct_update)

lemma distinct_concepts_init: "distinct (map fst (concepts (init rows)))"
  using distinct_fold_update [of "[]" rows] by (simp add: init_def Let_def)

lemma root_node_init: "root_node (init []) = Some (new_node (S ''ROOT'') [] False)"
  by (simp add: root_node_def init_def)

lemmas sm_defs = parse_show_def get_show_keys_def init_def show_key_def new_node_def
  db_insert_def db_upsert_def parse_hide_def get_hide_keys_def hide_key_def parse_block_def
  get_nodes_def upsert_block_def post_parse_def instant_parse_def is_title_def nodes_close_def
  dict_get_def node_str_def get_show_memory_def root_node_def add_content_def

subsection \<open>The loop of get\_nodes and the blocks of a text\<close>

lemma last_dropWhile: "dropWhile P xs \<noteq> [] \<Longrightarrow> last (dropWhile P xs) = last xs"
  by (induction xs) (auto split: if_splits)

lemma strip_ends:
  assumes "strip s \<noteq> []"
  shows "\<not> isspace (hd (strip s))" and "\<not> isspace (last (strip s))"
proof -
  let ?d = "dropWhile isspace s"
  let ?e = "dropWhile isspace (rev ?d)"
  from assms have e: "?e \<noteq> []"
    by (simp add: strip_def)
  then have d: "?d \<noteq> []"
    by (metis dropWhile.simps(1) rev.simps(1))
  have "hd (strip s) = last ?e"
    using e by (simp add: strip_def hd_rev)
  also have "\<dots> = last (rev ?d)"
    using e by (rule last_dropWhile)
  also have "\<dots> = hd ?d"
    using d by (simp add: last_rev)
  finally show "\<not> isspace (hd (strip s))"
    using d hd_dropWhile [of isspace s] by simp
  have "last (strip s) = hd ?e"
    using e by (simp add: strip_def last_rev)
  then show "\<not> isspace (last (strip s))"
    using e hd_dropWhile [of isspace "rev ?d"] by simp
qed

lemma unlines_join: "ls \<noteq> [] \<Longrightarrow> unlines ls = join [10] ls @ [10]"
  by (induction "[10::nat]" ls rule: join.induct) (simp_all add: unlines_def)

lemma hd_join: "ls \<noteq> [] \<Longrightarrow> hd ls \<noteq> [] \<Longrightarrow> hd (join [10] ls) = hd (hd ls)"
  by (induction "[10::nat]" ls rule: join.induct) simp_all

lemma join_eq_Nil: "join [10] ls = [] \<Longrightarrow> ls = [] \<or> ls = [[]]"
  by (induction "[10::nat]" ls rule: join.induct) simp_all

lemma join_nonempty: "ls \<noteq> [] \<Longrightarrow> hd ls \<noteq> [] \<Longrightarrow> join [10] ls \<noteq> []"
  using join_eq_Nil [of ls] by auto

lemma last_join: "ls \<noteq> [] \<Longrightarrow> last ls \<noteq> [] \<Longrightarrow> last (join [10] ls) = last (last ls)"
proof (induction "[10::nat]" ls rule: join.induct)
  case 1
  then show ?case by simp
next
  case (2 x)
  then show ?case by simp
next
  case (3 x y ys)
  from "3.prems" have "join [10] (y # ys) \<noteq> []"
    using join_eq_Nil [of "y # ys"] by auto
  with 3 show ?case by simp
qed

lemma dropWhile_id: "xs \<noteq> [] \<Longrightarrow> \<not> P (hd xs) \<Longrightarrow> dropWhile P xs = xs"
  by (cases xs) simp_all

lemma strip_unlines:
  assumes "\<forall>l\<in>set ls. l \<noteq> [] \<and> \<not> isspace (hd l) \<and> \<not> isspace (last l)"
  shows "strip (unlines ls) = join [10] ls"
proof (cases "ls = []")
  case True
  then show ?thesis by (simp add: unlines_def strip_def)
next
  case False
  let ?j = "join [10] ls"
  from False assms have h: "hd ls \<noteq> []" "last ls \<noteq> []"
    by auto
  have j: "?j \<noteq> []"
    using False h by (simp add: join_nonempty)
  have hj: "\<not> isspace (hd ?j)"
    using False h assms by (simp add: hd_join)
  have lj: "\<not> isspace (last ?j)"
    using False h assms by (simp add: last_join)
  have 1: "dropWhile isspace (?j @ [10]) = ?j @ [10]"
    using j hj by (simp add: dropWhile_id)
  have 2: "dropWhile isspace (rev ?j) = rev ?j"
    using j lj by (simp add: dropWhile_id hd_rev)
  have 3: "isspace 10"
    by (simp add: isspace_def)
  show ?thesis
    using False 1 2 3 by (simp add: unlines_join strip_def)
qed

lemma dict_get_update:
  "dict_get (AList.update t x nds) k = (if k = t then x else dict_get nds k)"
  by (simp add: dict_get_def update_conv')

lemma dict_get_Nil: "dict_get [] k = []"
  by (simp add: dict_get_def)

lemma unlines_Cons: "unlines (l # ls) = l @ 10 # unlines ls"
  by (simp add: unlines_def)

lemma unlines_Nil: "unlines [] = []"
  by (simp add: unlines_def)

lemma unlines_concat: "concat (map unlines bs) = unlines (concat bs)"
  by (induction bs) (simp_all add: unlines_def)

lemma get_nodes_loop_value:
  "dict_get (get_nodes_loop raw nds (Some t) v) k =
     dict_get nds k
     @ (if k = t
        then v @ unlines (takeWhile (\<lambda>x. \<not> is_title x) (filter (\<lambda>l. l \<noteq> []) (map strip raw)))
        else [])
     @ concat (map (\<lambda>b. unlines (snd b))
         (filter (\<lambda>b. fst b = k) (blocks_of (filter (\<lambda>l. l \<noteq> []) (map strip raw)))))"
proof (induction raw arbitrary: nds t v)
  case Nil
  then show ?case
    by (simp add: nodes_close_def dict_get_update unlines_Nil)
next
  case (Cons l raw)
  show ?case
  proof (cases "strip l = []")
    case True
    then show ?thesis by (simp add: Cons.IH)
  next
    case False
    show ?thesis
    proof (cases "is_title (strip l)")
      case True
      with False show ?thesis
        by (simp add: Cons.IH Let_def nodes_close_def dict_get_update unlines_Nil)
    next
      case nt: False
      with False show ?thesis
        by (simp add: Cons.IH Let_def unlines_Cons)
    qed
  qed
qed

lemma get_nodes_loop_keys:
  "fst ` set (get_nodes_loop raw nds (Some t) v) =
     fst ` set nds \<union> {t} \<union> fst ` set (blocks_of (filter (\<lambda>l. l \<noteq> []) (map strip raw)))"
proof (induction raw arbitrary: nds t v)
  case Nil
  then show ?case
    by (simp add: nodes_close_def dom_update)
next
  case (Cons l raw)
  show ?case
  proof (cases "strip l = []")
    case True
    then show ?thesis by (simp add: Cons.IH)
  next
    case False
    show ?thesis
    proof (cases "is_title (strip l)")
      case True
      with False show ?thesis
        by (auto simp add: Cons.IH Let_def nodes_close_def dom_update)
    next
      case nt: False
      with False show ?thesis
        by (simp add: Cons.IH Let_def)
    qed
  qed
qed

lemma get_nodes_loop_start:
  "takeWhile (\<lambda>x. \<not> is_title x) (filter (\<lambda>l. l \<noteq> []) (map strip raw)) = [] \<Longrightarrow>
   dict_get (get_nodes_loop raw [] None []) k
     = concat (map (\<lambda>b. unlines (snd b))
         (filter (\<lambda>b. fst b = k) (blocks_of (filter (\<lambda>l. l \<noteq> []) (map strip raw)))))
   \<and> fst ` set (get_nodes_loop raw [] None [])
     = fst ` set (blocks_of (filter (\<lambda>l. l \<noteq> []) (map strip raw)))"
proof (induction raw)
  case Nil
  then show ?case
    by (simp add: nodes_close_def dict_get_def)
next
  case (Cons l raw)
  show ?case
  proof (cases "strip l = []")
    case True
    with Cons show ?thesis by simp
  next
    case False
    with Cons.prems have "is_title (strip l)"
      by (simp split: if_splits)
    with False show ?thesis
      by (simp add: Let_def nodes_close_def get_nodes_loop_value get_nodes_loop_keys
          dict_get_Nil unlines_Nil)
  qed
qed

lemma map_of_dict_get:
  "map_of d k = (if k \<in> fst ` set d then Some (dict_get d k) else None)"
  by (cases "map_of d k") (auto simp add: dict_get_def map_of_eq_None_iff dest: map_of_SomeD
      intro: rev_image_eqI)

lemma blocks_of_lines: "b \<in> set (blocks_of ls) \<Longrightarrow> set (snd b) \<subseteq> set ls"
  by (induction ls) (auto split: if_splits dest: set_takeWhileD)

lemma text_lines_ends:
  "l \<in> set (text_lines c) \<Longrightarrow> l \<noteq> [] \<and> \<not> isspace (hd l) \<and> \<not> isspace (last l)"
  using strip_ends by (auto simp add: text_lines_def)

lemma get_nodes_blocks:
  assumes "takeWhile (\<lambda>x. \<not> is_title x) (text_lines c) = []"
  shows "map_of (get_nodes c) k =
     (if k \<in> fst ` set (blocks_of (text_lines c)) then Some (body_of k (text_lines c)) else None)"
proof -
  let ?R = "get_nodes_loop (split 10 (strip c)) [] None []"
  let ?bs = "filter (\<lambda>b. fst b = k) (blocks_of (text_lines c))"
  have m: "map_of (get_nodes c) k = map_option strip (map_of ?R k)"
    by (simp add: get_nodes_def map_of_map)
  from get_nodes_loop_start [OF assms [unfolded text_lines_def], of k]
  have v: "dict_get ?R k = concat (map (\<lambda>b. unlines (snd b)) ?bs)"
    and d: "fst ` set ?R = fst ` set (blocks_of (text_lines c))"
    by (simp_all add: text_lines_def)
  have "concat (map (\<lambda>b. unlines (snd b)) ?bs) = unlines (concat (map snd ?bs))"
    using unlines_concat [of "map snd ?bs"] by (simp add: comp_def)
  moreover have "\<forall>l\<in>set (concat (map snd ?bs)). l \<noteq> [] \<and> \<not> isspace (hd l) \<and> \<not> isspace (last l)"
    using blocks_of_lines [of _ "text_lines c"] text_lines_ends [of _ c] by fastforce
  ultimately have "strip (dict_get ?R k) = body_of k (text_lines c)"
    using v by (simp add: strip_unlines body_of_def)
  with m d show ?thesis
    by (simp add: map_of_dict_get [of ?R k])
qed

section \<open>Properties of the agent\<close>

subsection \<open>The trace of the loops\<close>

lemma new_events_append: "trace s' = trace s @ evs \<Longrightarrow> new_events s s' = evs"
  by (simp add: new_events_def)

lemma trace_recall: "trace (snd (recall env x s)) = trace s @ [Recall x]"
  by (simp add: recall_def split: prod.splits)

lemma dispatch_no_match:
  "find (\<lambda>k. match_template env k buf) is = None \<Longrightarrow>
   dispatch env is buf s = ((None, False, False), s)"
  by (induction "is") (simp_all split: if_splits)

lemma dispatch_first_match:
  "find (\<lambda>k. match_template env k buf) is = Some i \<Longrightarrow>
   trace (snd (dispatch env is buf s)) =
     trace s @ Parse i buf (fst (parse env i buf (world s)))
       # (case fst (parse env i buf (world s)) of
            Inl e \<Rightarrow> []
          | Inr r \<Rightarrow> [Recall (Some (S ''\<newline>'' @ fst r @ S ''\<newline>''))])"
proof (induction "is")
  case Nil
  then show ?case by simp
next
  case (Cons a "is")
  show ?case
  proof (cases "match_template env a buf")
    case True
    with Cons.prems have "a = i" by simp
    with True show ?thesis
      by (simp add: recall_def split: prod.splits sum.splits option.splits)
  next
    case False
    with Cons show ?thesis by simp
  qed
qed

lemma dispatch_match_leaves:
  "find (\<lambda>k. match_template env k buf) is = Some i \<Longrightarrow>
   fst (fst (dispatch env is buf s)) \<noteq> None \<or> fst (snd (fst (dispatch env is buf s)))"
proof (induction "is")
  case Nil
  then show ?case by simp
next
  case (Cons a "is")
  show ?case
  proof (cases "match_template env a buf")
    case True
    then show ?thesis
      by (simp split: prod.splits sum.splits option.splits)
  next
    case False
    with Cons show ?thesis by simp
  qed
qed

lemma stream_match_rest:
  assumes "find (\<lambda>k. match_template env k (result @ t)) output_interpreters = Some i"
  shows "stream env (Token t # rest) result s = stream env (Token t # rest') result s"
proof -
  obtain r s1 where rc: "recall env (Some t) (s\<lparr>trace := trace s @ [Pull (Token t)]\<rparr>) = (r, s1)"
    by (metis prod.exhaust)
  show ?thesis
  proof (cases r)
    case (Some e)
    with rc show ?thesis by simp
  next
    case None
    obtain x brk st s2 where d: "dispatch env output_interpreters (result @ t) s1 = ((x, brk, st), s2)"
      by (metis prod.exhaust)
    from dispatch_match_leaves [OF assms, of s1] d have "x \<noteq> None \<or> brk"
      by simp
    with rc None d show ?thesis
      by (cases x) auto
  qed
qed

lemma stream_match_trace:
  assumes "find (\<lambda>k. match_template env k (result @ t)) output_interpreters = Some i"
  shows "\<exists>evs. trace (snd (stream env (Token t # rest) result s))
             = trace s @ Pull (Token t) # Recall (Some t) # evs
           \<and> pulls evs = 0 \<and> set (parsed_by evs) \<subseteq> {i}"
proof -
  let ?s0 = "s\<lparr>trace := trace s @ [Pull (Token t)]\<rparr>"
  obtain r s1 where rc: "recall env (Some t) ?s0 = (r, s1)"
    by (metis prod.exhaust)
  from trace_recall [of env "Some t" ?s0] rc
  have t1: "trace s1 = trace s @ [Pull (Token t), Recall (Some t)]"
    by simp
  show ?thesis
  proof (cases r)
    case (Some e)
    with rc t1 show ?thesis by simp
  next
    case None
    obtain x brk st s2 where d: "dispatch env output_interpreters (result @ t) s1 = ((x, brk, st), s2)"
      by (metis prod.exhaust)
    from dispatch_match_leaves [OF assms, of s1] d have l: "x \<noteq> None \<or> brk"
      by simp
    from dispatch_first_match [OF assms, of s1] d t1
    have t2: "trace s2 = trace s @ Pull (Token t) # Recall (Some t)
         # Parse i (result @ t) (fst (parse env i (result @ t) (world s1)))
         # (case fst (parse env i (result @ t) (world s1)) of
              Inl e \<Rightarrow> []
            | Inr r \<Rightarrow> [Recall (Some (S ''\<newline>'' @ fst r @ S ''\<newline>''))])"
      by simp
    have "trace (snd (stream env (Token t # rest) result s)) = trace s2"
      using rc None d l by (cases x) auto
    with t2 show ?thesis
      by (auto split: sum.splits)
  qed
qed

subsection \<open>Fresh ids\<close>

lemma fold_max_ge: "a \<le> fold (\<lambda>n k. max k (Suc (node_id n))) ns a"
proof (induction ns arbitrary: a)
  case Nil
  then show ?case by simp
next
  case (Cons x ns)
  have "a \<le> max a (Suc (node_id x))"
    by simp
  also have "\<dots> \<le> fold (\<lambda>n k. max k (Suc (node_id n))) ns (max a (Suc (node_id x)))"
    by (rule Cons.IH)
  finally show ?case
    by simp
qed

lemma fold_max_gt:
  "n \<in> set ns \<Longrightarrow> node_id n < fold (\<lambda>n k. max k (Suc (node_id n))) ns a"
proof (induction ns arbitrary: a)
  case Nil
  then show ?case by simp
next
  case (Cons x ns)
  show ?case
  proof (cases "n = x")
    case True
    have "Suc (node_id x) \<le> max a (Suc (node_id x))"
      by simp
    also have "\<dots> \<le> fold (\<lambda>n k. max k (Suc (node_id n))) ns (max a (Suc (node_id x)))"
      by (rule fold_max_ge)
    finally show ?thesis
      using True by simp
  next
    case False
    with Cons show ?thesis by simp
  qed
qed

lemma fresh_id_gt: "n \<in> set (nodes m) \<Longrightarrow> node_id n < fresh_id m"
  by (simp add: fresh_id_def fold_max_gt)

lemma filter_insert_after:
  "\<forall>x\<in>set ns. node_id x \<noteq> node_id n \<Longrightarrow>
   filter (\<lambda>x. node_id x \<noteq> node_id n) (insert_after r n ns) = ns"
  by (induction ns) auto

lemma find_insert_after:
  "\<forall>x\<in>set ns. node_id x \<noteq> node_id n \<Longrightarrow>
   find (\<lambda>x. node_id x = node_id n) (insert_after r n ns) = Some n"
  by (induction ns) auto

lemma add_node_after_id:
  "node_id (fst (add_node_after m r n)) = fresh_id m"
  by (simp add: add_node_after_def Let_def)

lemma add_node_after_new:
  "x \<in> set (nodes m) \<Longrightarrow> node_id x \<noteq> node_id (fst (add_node_after m r n))"
  using fresh_id_gt [of x m] by (simp add: add_node_after_id)

lemma delete_added:
  "nodes (delete_node (set_current_node (snd (add_node_after m r n)) c) (fst (add_node_after m r n)))
     = nodes m"
proof -
  let ?a = "fst (add_node_after m r n)"
  have "\<forall>x\<in>set (nodes m). node_id x \<noteq> node_id ?a"
    using add_node_after_new by blast
  from filter_insert_after [OF this, of "node_id r"] show ?thesis
    by (simp add: delete_node_def set_current_node_def add_node_after_def Let_def)
qed

lemma get_added:
  "get_node (set_current_node (snd (add_node_after m r n)) c) (node_id (fst (add_node_after m r n)))
     = Some (fst (add_node_after m r n))"
proof -
  let ?a = "fst (add_node_after m r n)"
  have "\<forall>x\<in>set (nodes m). node_id x \<noteq> node_id ?a"
    using add_node_after_new by blast
  from find_insert_after [OF this, of "node_id r"] show ?thesis
    by (simp add: get_node_def set_current_node_def add_node_after_def Let_def)
qed

lemma get_deleted: "get_node (delete_node m n) (node_id n) = None"
  by (simp add: get_node_def delete_node_def find_None_iff)

subsection \<open>The memory during a turn\<close>

lemma recall_memory: "recall env x s = (r, s') \<Longrightarrow> memory s' = memory s"
  by (auto simp add: recall_def split: prod.splits)

lemma dispatch_memory: "dispatch env is buf s = (r, s') \<Longrightarrow> memory s' = memory s"
  by (induction "is")
    (auto split: if_splits prod.splits sum.splits option.splits dest: recall_memory)

lemma stream_memory: "stream env its result s = (r, s') \<Longrightarrow> memory s' = memory s"
proof (induction env its result s arbitrary: r s' rule: stream.induct)
  case (1 env result s)
  then show ?case by simp
next
  case (2 env e its result s)
  then show ?case by auto
next
  case (3 env its result s)
  then show ?case by auto
next
  case (4 env t its result s)
  obtain r1 s1 where rc: "recall env (Some t) (s\<lparr>trace := trace s @ [Pull (Token t)]\<rparr>) = (r1, s1)"
    by (metis prod.exhaust)
  from recall_memory [OF rc] have m1: "memory s1 = memory s"
    by simp
  show ?case
  proof (cases r1)
    case (Some e)
    with "4.prems" rc m1 show ?thesis by simp
  next
    case None
    obtain x brk st s2 where d: "dispatch env output_interpreters (result @ t) s1 = ((x, brk, st), s2)"
      by (metis prod.exhaust)
    from dispatch_memory [OF d] m1 have m2: "memory s2 = memory s"
      by simp
    show ?thesis
    proof (cases x)
      case (Some e)
      with "4.prems" rc None d m2 show ?thesis by simp
    next
      case xn: None
      show ?thesis
      proof (cases brk)
        case True
        with "4.prems" rc None d xn m2 show ?thesis by simp
      next
        case False
        with "4.prems" rc None d xn have "stream env its (result @ t) s2 = (r, s')"
          by simp
        from "4.IH" [OF rc [symmetric] None d [symmetric] refl xn refl False this] m2
        show ?thesis by simp
      qed
    qed
  qed
qed

subsection \<open>The trace and the stop value of a turn\<close>

lemma recall_trace: "recall env x s = (r, s') \<Longrightarrow> trace s' = trace s @ [Recall x]"
  by (auto simp add: recall_def split: prod.splits)

lemma stop_set_append: "stop_set b (xs @ ys) = stop_set (stop_set b xs) ys"
  by (induction b xs rule: stop_set.induct) simp_all

lemma dispatch_continue:
  "dispatch env is buf s = ((None, False, st), s') \<Longrightarrow> s' = s \<and> st = False"
  by (induction "is") (auto split: if_splits prod.splits sum.splits option.splits)

lemma dispatch_stop:
  "dispatch env is buf s = ((x, brk, st), s') \<Longrightarrow>
   \<exists>evs. trace s' = trace s @ evs \<and> st = stop_set False evs"
proof (induction "is")
  case Nil
  then show ?case by simp
next
  case (Cons a "is")
  show ?case
  proof (cases "match_template env a buf")
    case False
    with Cons show ?thesis by simp
  next
    case True
    obtain p w where p: "parse env a buf (world s) = (p, w)"
      by (metis prod.exhaust)
    show ?thesis
    proof (cases p)
      case (Inl e)
      with Cons.prems True p show ?thesis by auto
    next
      case (Inr os)
      obtain out st' where os: "os = (out, st')"
        by (metis prod.exhaust)
      let ?s1 = "s\<lparr>world := w, trace := trace s @ [Parse a buf (Inr (out, st'))]\<rparr>"
      obtain r s2 where rc: "recall env (Some (S ''\<newline>'' @ out @ S ''\<newline>'')) ?s1 = (r, s2)"
        by (metis prod.exhaust)
      from recall_trace [OF rc]
      have "trace s2 = trace s @ [Parse a buf (Inr (out, st')), Recall (Some (S ''\<newline>'' @ out @ S ''\<newline>''))]"
        by simp
      moreover from Cons.prems True p Inr os rc have "s' = s2" and "st = st'"
        by (auto split: option.splits)
      ultimately show ?thesis by simp
    qed
  qed
qed

lemma stream_stop:
  "stream env its result s = ((x, res, st), s') \<Longrightarrow>
   \<exists>evs. trace s' = trace s @ evs \<and> st = stop_set False evs"
proof (induction env its result s arbitrary: x res st s' rule: stream.induct)
  case (1 env result s)
  then show ?case by simp
next
  case (2 env e its result s)
  then show ?case by auto
next
  case (3 env its result s)
  then show ?case by auto
next
  case (4 env t its result s)
  obtain r1 s1 where rc: "recall env (Some t) (s\<lparr>trace := trace s @ [Pull (Token t)]\<rparr>) = (r1, s1)"
    by (metis prod.exhaust)
  from recall_trace [OF rc] have t1: "trace s1 = trace s @ [Pull (Token t), Recall (Some t)]"
    by simp
  show ?case
  proof (cases r1)
    case (Some e)
    with "4.prems" rc t1 show ?thesis by auto
  next
    case None
    obtain y brk st2 s2 where d: "dispatch env output_interpreters (result @ t) s1 = ((y, brk, st2), s2)"
      by (metis prod.exhaust)
    from dispatch_stop [OF d] obtain evs where
      t2: "trace s2 = trace s1 @ evs" and st2: "st2 = stop_set False evs"
      by blast
    show ?thesis
    proof (cases "y = None \<and> \<not> brk")
      case False
      with "4.prems" rc None d have "s' = s2" and "st = st2"
        by (auto split: option.splits if_splits)
      with t1 t2 st2 show ?thesis
        by (simp add: stop_set_append)
    next
      case True
      with d dispatch_continue [of env output_interpreters "result @ t" s1 st2 s2]
      have same: "s2 = s1"
        by simp
      from True "4.prems" rc None d have "stream env its (result @ t) s2 = ((x, res, st), s')"
        by simp
      from "4.IH" [OF rc [symmetric] None d [symmetric] refl _ refl _ this] True
      obtain evs' where "trace s' = trace s2 @ evs'" and "st = stop_set False evs'"
        by auto
      with same t1 show ?thesis
        by (simp add: stop_set_append)
    qed
  qed
qed

lemma try_suite_stop:
  assumes "try_suite env messages node answer_node s = ((x, res, st), s')"
  shows "\<exists>evs. trace s' = trace s @ evs \<and> st = stop_set False evs"
proof -
  obtain l w where l: "llm_inference env messages (world s) = (l, w)"
    by (metis prod.exhaust)
  show ?thesis
  proof (cases l)
    case (Inl e)
    with assms l show ?thesis
      by (auto simp add: try_suite_def)
  next
    case (Inr response)
    obtain y res1 st1 s1 where str: "stream env response [] (s\<lparr>world := w\<rparr>) = ((y, res1, st1), s1)"
      by (metis prod.exhaust)
    from stream_stop [OF str] obtain evs where
      t1: "trace s1 = trace s @ evs" and st1: "st1 = stop_set False evs"
      by auto
    show ?thesis
    proof (cases y)
      case (Some e)
      with assms l Inr str t1 st1 show ?thesis
        by (auto simp add: try_suite_def)
    next
      case None
      obtain r s2 where rc: "recall env None s1 = (r, s2)"
        by (metis prod.exhaust)
      from recall_trace [OF rc] t1 have "trace s2 = trace s @ evs @ [Recall None]"
        by simp
      moreover from assms l Inr str None rc have "trace s' = trace s2" and "st = st1"
        by (auto simp add: try_suite_def split: option.splits)
      ultimately show ?thesis
        using st1 by (auto simp add: stop_set_append)
    qed
  qed
qed

lemma try_suite_memory:
  assumes "try_suite env messages node answer_node s = ((Some e, res, st), s')"
  shows "memory s' = memory s"
proof -
  obtain l w where l: "llm_inference env messages (world s) = (l, w)"
    by (metis prod.exhaust)
  show ?thesis
  proof (cases l)
    case (Inl e)
    with assms l show ?thesis
      by (auto simp add: try_suite_def)
  next
    case (Inr response)
    obtain y res1 st1 s1 where str: "stream env response [] (s\<lparr>world := w\<rparr>) = ((y, res1, st1), s1)"
      by (metis prod.exhaust)
    from stream_memory [OF str] have m1: "memory s1 = memory s"
      by simp
    show ?thesis
    proof (cases y)
      case (Some e)
      with assms l Inr str m1 show ?thesis
        by (auto simp add: try_suite_def)
    next
      case None
      obtain r s2 where rc: "recall env None s1 = (r, s2)"
        by (metis prod.exhaust)
      from recall_memory [OF rc] m1 have "memory s2 = memory s"
        by simp
      moreover from assms l Inr str None rc have "s' = s2"
        by (auto simp add: try_suite_def split: option.splits)
      ultimately show ?thesis by simp
    qed
  qed
qed

lemma begin_turn_answer:
  assumes "begin_turn env node s = (Inr (messages, answer_node), s2)"
  shows "answer_node = fst (add_node_after (memory s) node (new_MemoryNode (S ''system'') (S ''answer'') []))"
    and "memory s2 = set_current_node
           (snd (add_node_after (memory s) node (new_MemoryNode (S ''system'') (S ''answer'') [])))
           answer_node"
  using assms
  by (auto simp add: begin_turn_def Let_def split: prod.splits sum.splits option.splits if_splits
      dest: recall_memory)

lemmas agent_defs = execute_node_def begin_turn_def try_suite_def except_suite_def recall_def
  script_env_def returns_def raises_def hi_agent_def hi_node_def fresh_agent_def empty_memory_def
  add_node_after_def add_node_def fresh_id_def set_current_node_def success_node_def
  delete_node_def get_node_def get_todo_node_def set_content_def new_MemoryNode_def
  get_related_messages_for_node_def output_interpreters_def new_events_def Let_def

subsection \<open>The events of the step that completes a match\<close>

lemma stream_match_events:
  assumes f: "find (\<lambda>k. match_template env k (result @ t)) output_interpreters = Some i"
    and c: "fst (fst (output_recall env (Some t) (world s))) = None"
  shows "new_events s (snd (stream env (Token t # rest) result s))
           = Pull (Token t) # Recall (Some t)
             # Parse i (result @ t)
                 (fst (parse env i (result @ t) (snd (output_recall env (Some t) (world s)))))
             # (case fst (parse env i (result @ t) (snd (output_recall env (Some t) (world s)))) of
                  Inl e \<Rightarrow> []
                | Inr r \<Rightarrow> [Recall (Some (S ''\<newline>'' @ fst r @ S ''\<newline>''))])"
proof -
  let ?s0 = "s\<lparr>trace := trace s @ [Pull (Token t)]\<rparr>"
  obtain x s1 where rc: "recall env (Some t) ?s0 = (x, s1)"
    by (metis prod.exhaust)
  from rc c have x: "x = None"
    by (auto simp add: recall_def split: prod.splits)
  from rc have w1: "world s1 = snd (output_recall env (Some t) (world s))"
    by (auto simp add: recall_def split: prod.splits)
  from recall_trace [OF rc] have t1: "trace s1 = trace s @ [Pull (Token t), Recall (Some t)]"
    by simp
  obtain e brk st s2 where d: "dispatch env output_interpreters (result @ t) s1 = ((e, brk, st), s2)"
    by (metis prod.exhaust)
  from dispatch_match_leaves [OF f, of s1] d have l: "e \<noteq> None \<or> brk"
    by simp
  from rc x d l have "snd (stream env (Token t # rest) result s) = s2"
    by (cases e) auto
  moreover from dispatch_first_match [OF f, of s1] d
  have "trace s2 = trace s1 @ Parse i (result @ t) (fst (parse env i (result @ t) (world s1)))
       # (case fst (parse env i (result @ t) (world s1)) of
            Inl e \<Rightarrow> []
          | Inr r \<Rightarrow> [Recall (Some (S ''\<newline>'' @ fst r @ S ''\<newline>''))])"
    by simp
  ultimately show ?thesis
    using t1 w1 by (simp add: new_events_def)
qed

lemma stream_callback_raises:
  assumes c: "fst (fst (output_recall env (Some t) (world s))) \<noteq> None"
  shows "new_events s (snd (stream env (Token t # rest) result s))
           = [Pull (Token t), Recall (Some t)]"
proof -
  let ?s0 = "s\<lparr>trace := trace s @ [Pull (Token t)]\<rparr>"
  obtain x s1 where rc: "recall env (Some t) ?s0 = (x, s1)"
    by (metis prod.exhaust)
  from rc c obtain e where x: "x = Some e"
    by (auto simp add: recall_def split: prod.splits)
  from recall_trace [OF rc] have t1: "trace s1 = trace s @ [Pull (Token t), Recall (Some t)]"
    by simp
  from rc x have "snd (stream env (Token t # rest) result s) = s1"
    by simp
  with t1 show ?thesis
    by (simp add: new_events_def)
qed

subsection \<open>The calls of the callback in a turn\<close>

lemma recalled_append: "recalled (xs @ ys) = recalled xs @ recalled ys"
  by (induction xs rule: recalled.induct) simp_all

lemma pulled_append: "pulled (xs @ ys) = pulled xs @ pulled ys"
  by (induction xs rule: pulled.induct) simp_all

lemma dispatch_calls:
  "dispatch env is buf s = (r, s') \<Longrightarrow>
   \<exists>evs. trace s' = trace s @ evs \<and> pulled evs = []
     \<and> (recalled evs = [] \<or> (\<exists>out. recalled evs = [Some out]))"
proof (induction "is")
  case Nil
  then show ?case by simp
next
  case (Cons a "is")
  show ?case
  proof (cases "match_template env a buf")
    case False
    with Cons show ?thesis by simp
  next
    case True
    obtain p w where p: "parse env a buf (world s) = (p, w)"
      by (metis prod.exhaust)
    show ?thesis
    proof (cases p)
      case (Inl e)
      with Cons.prems True p show ?thesis by auto
    next
      case (Inr os)
      obtain out st' where os: "os = (out, st')"
        by (metis prod.exhaust)
      let ?s1 = "s\<lparr>world := w, trace := trace s @ [Parse a buf (Inr (out, st'))]\<rparr>"
      obtain r1 s2 where rc: "recall env (Some (S ''\<newline>'' @ out @ S ''\<newline>'')) ?s1 = (r1, s2)"
        by (metis prod.exhaust)
      from recall_trace [OF rc]
      have "trace s2 = trace s @ [Parse a buf (Inr (out, st')), Recall (Some (S ''\<newline>'' @ out @ S ''\<newline>''))]"
        by simp
      moreover from Cons.prems True p Inr os rc have "s' = s2"
        by (auto split: option.splits)
      ultimately show ?thesis by simp
    qed
  qed
qed

lemma outputs_append: "outputs (xs @ ys) = outputs xs @ outputs ys"
  by (induction xs rule: outputs.induct) simp_all

lemma dispatch_outputs:
  "dispatch env is buf s = (r, s') \<Longrightarrow>
   \<exists>evs. trace s' = trace s @ evs \<and> pulled evs = []
     \<and> recalled evs = outputs evs \<and> length (outputs evs) \<le> 1"
proof (induction "is")
  case Nil
  then show ?case by simp
next
  case (Cons a "is")
  show ?case
  proof (cases "match_template env a buf")
    case False
    with Cons show ?thesis by simp
  next
    case True
    obtain p w where p: "parse env a buf (world s) = (p, w)"
      by (metis prod.exhaust)
    show ?thesis
    proof (cases p)
      case (Inl e)
      with Cons.prems True p show ?thesis by auto
    next
      case (Inr os)
      obtain out st' where os: "os = (out, st')"
        by (metis prod.exhaust)
      let ?s1 = "s\<lparr>world := w, trace := trace s @ [Parse a buf (Inr (out, st'))]\<rparr>"
      obtain r1 s2 where rc: "recall env (Some (S ''\<newline>'' @ out @ S ''\<newline>'')) ?s1 = (r1, s2)"
        by (metis prod.exhaust)
      from recall_trace [OF rc]
      have "trace s2 = trace s @ [Parse a buf (Inr (out, st')), Recall (Some (S ''\<newline>'' @ out @ S ''\<newline>''))]"
        by simp
      moreover from Cons.prems True p Inr os rc have "s' = s2"
        by (auto split: option.splits)
      ultimately show ?thesis by simp
    qed
  qed
qed

lemma stream_outputs:
  "stream env its result s = ((x, res, st), s') \<Longrightarrow>
   \<exists>evs. trace s' = trace s @ evs
     \<and> recalled evs = map Some (pulled evs) @ outputs evs
     \<and> length (outputs evs) \<le> 1
     \<and> res = result @ concat (pulled evs)
     \<and> map Token (pulled evs) = take (length (pulled evs)) its"
proof (induction env its result s arbitrary: x res st s' rule: stream.induct)
  case (1 env result s)
  then show ?case by simp
next
  case (2 env e its result s)
  then show ?case by auto
next
  case (3 env its result s)
  then show ?case by auto
next
  case (4 env t its result s)
  obtain r1 s1 where rc: "recall env (Some t) (s\<lparr>trace := trace s @ [Pull (Token t)]\<rparr>) = (r1, s1)"
    by (metis prod.exhaust)
  from recall_trace [OF rc] have t1: "trace s1 = trace s @ [Pull (Token t), Recall (Some t)]"
    by simp
  show ?case
  proof (cases r1)
    case (Some e)
    with "4.prems" rc have "s' = s1" and "res = result @ t" by simp_all
    with t1 have "trace s' = trace s @ [Pull (Token t), Recall (Some t)]
        \<and> recalled [Pull (Token t), Recall (Some t)]
            = map Some (pulled [Pull (Token t), Recall (Some t)])
              @ outputs [Pull (Token t), Recall (Some t)]
        \<and> length (outputs [Pull (Token t), Recall (Some t)]) \<le> 1
        \<and> res = result @ concat (pulled [Pull (Token t), Recall (Some t)])
        \<and> map Token (pulled [Pull (Token t), Recall (Some t)])
            = take (length (pulled [Pull (Token t), Recall (Some t)])) (Token t # its)"
      by simp
    then show ?thesis by blast
  next
    case None
    obtain y brk st2 s2 where d: "dispatch env output_interpreters (result @ t) s1 = ((y, brk, st2), s2)"
      by (metis prod.exhaust)
    from dispatch_outputs [OF d] obtain evs where
      t2: "trace s2 = trace s1 @ evs" and p2: "pulled evs = []"
      and r2: "recalled evs = outputs evs" and l2: "length (outputs evs) \<le> 1"
      by blast
    show ?thesis
    proof (cases "y = None \<and> \<not> brk")
      case False
      with "4.prems" rc None d have "s' = s2" and "res = result @ t"
        by (auto split: option.splits if_splits)
      with t1 t2 have "trace s' = trace s @ (Pull (Token t) # Recall (Some t) # evs)"
        by simp
      moreover have "recalled (Pull (Token t) # Recall (Some t) # evs)
          = map Some (pulled (Pull (Token t) # Recall (Some t) # evs))
            @ outputs (Pull (Token t) # Recall (Some t) # evs)"
        using p2 r2 by simp
      moreover have "length (outputs (Pull (Token t) # Recall (Some t) # evs)) \<le> 1"
        using l2 by simp
      moreover have "res = result @ concat (pulled (Pull (Token t) # Recall (Some t) # evs))"
        using p2 \<open>res = result @ t\<close> by simp
      moreover have "map Token (pulled (Pull (Token t) # Recall (Some t) # evs))
          = take (length (pulled (Pull (Token t) # Recall (Some t) # evs))) (Token t # its)"
        using p2 by simp
      ultimately show ?thesis
        by blast
    next
      case True
      with d dispatch_continue [of env output_interpreters "result @ t" s1 st2 s2]
      have same: "s2 = s1"
        by simp
      from True "4.prems" rc None d have "stream env its (result @ t) s2 = ((x, res, st), s')"
        by simp
      from "4.IH" [OF rc [symmetric] None d [symmetric] refl _ refl _ this] True
      obtain evs' where t3: "trace s' = trace s2 @ evs'"
        and r3: "recalled evs' = map Some (pulled evs') @ outputs evs'"
        and l3: "length (outputs evs') \<le> 1"
        and c3: "res = (result @ t) @ concat (pulled evs')"
        and k3: "map Token (pulled evs') = take (length (pulled evs')) its"
        by auto
      from t3 same t1 have "trace s' = trace s @ (Pull (Token t) # Recall (Some t) # evs')"
        by simp
      moreover from r3 have "recalled (Pull (Token t) # Recall (Some t) # evs')
          = map Some (pulled (Pull (Token t) # Recall (Some t) # evs'))
            @ outputs (Pull (Token t) # Recall (Some t) # evs')"
        by simp
      moreover from l3 have "length (outputs (Pull (Token t) # Recall (Some t) # evs')) \<le> 1"
        by simp
      moreover from c3 have "res = result @ concat (pulled (Pull (Token t) # Recall (Some t) # evs'))"
        by simp
      moreover from k3 have "map Token (pulled (Pull (Token t) # Recall (Some t) # evs'))
          = take (length (pulled (Pull (Token t) # Recall (Some t) # evs'))) (Token t # its)"
        by simp
      ultimately show ?thesis
        by blast
    qed
  qed
qed

lemma try_suite_outputs:
  assumes "try_suite env messages node answer_node s = ((x, res, st), s')"
  shows "\<exists>evs fin. trace s' = trace s @ evs
     \<and> recalled evs = map Some (pulled evs) @ outputs evs @ fin
     \<and> length (outputs evs) \<le> 1
     \<and> res = concat (pulled evs)
     \<and> (x = None \<longrightarrow> fin = [None])
     \<and> (x \<noteq> None \<longrightarrow>
          fin = [] \<or> fin = [None] \<and> (\<exists>w. fst (fst (output_recall env None w)) = x))
     \<and> (\<forall>response w. llm_inference env messages (world s) = (Inr response, w) \<longrightarrow>
          map Token (pulled evs) = take (length (pulled evs)) response)"
proof -
  obtain l w where l: "llm_inference env messages (world s) = (l, w)"
    by (metis prod.exhaust)
  show ?thesis
  proof (cases l)
    case (Inl e)
    with assms l have "trace s' = trace s @ []" and "x \<noteq> None" and "res = []"
      by (auto simp add: try_suite_def)
    with l Inl have "trace s' = trace s @ [] \<and> recalled [] = map Some (pulled []) @ outputs [] @ []
        \<and> length (outputs []) \<le> 1
        \<and> res = concat (pulled [])
        \<and> (x = None \<longrightarrow> ([] :: pystr option list) = [None])
        \<and> (x \<noteq> None \<longrightarrow>
             ([] :: pystr option list) = []
             \<or> ([] :: pystr option list) = [None] \<and> (\<exists>w. fst (fst (output_recall env None w)) = x))
        \<and> (\<forall>response w. llm_inference env messages (world s) = (Inr response, w) \<longrightarrow>
             map Token (pulled []) = take (length (pulled [])) response)"
      by simp
    then show ?thesis by blast
  next
    case (Inr response)
    obtain y res1 st1 s1 where str: "stream env response [] (s\<lparr>world := w\<rparr>) = ((y, res1, st1), s1)"
      by (metis prod.exhaust)
    from stream_outputs [OF str] obtain evs where
      t1: "trace s1 = trace s @ evs" and r1: "recalled evs = map Some (pulled evs) @ outputs evs"
      and l1: "length (outputs evs) \<le> 1" and c1: "res1 = concat (pulled evs)"
      and k1: "map Token (pulled evs) = take (length (pulled evs)) response"
      by auto
    from l Inr k1 have k1': "\<forall>response w. llm_inference env messages (world s) = (Inr response, w) \<longrightarrow>
          map Token (pulled evs) = take (length (pulled evs)) response"
      by simp
    show ?thesis
    proof (cases y)
      case (Some e)
      with assms l Inr str have "s' = s1" and "x \<noteq> None" and "res = res1"
        by (auto simp add: try_suite_def)
      with t1 r1 l1 c1 k1' have "trace s' = trace s @ evs
          \<and> recalled evs = map Some (pulled evs) @ outputs evs @ []
          \<and> length (outputs evs) \<le> 1
          \<and> res = concat (pulled evs)
          \<and> (x = None \<longrightarrow> ([] :: pystr option list) = [None])
          \<and> (x \<noteq> None \<longrightarrow>
               ([] :: pystr option list) = []
               \<or> ([] :: pystr option list) = [None] \<and> (\<exists>w. fst (fst (output_recall env None w)) = x))
          \<and> (\<forall>response w. llm_inference env messages (world s) = (Inr response, w) \<longrightarrow>
               map Token (pulled evs) = take (length (pulled evs)) response)"
        by simp
      then show ?thesis by blast
    next
      case None
      obtain r s2 where rc: "recall env None s1 = (r, s2)"
        by (metis prod.exhaust)
      from recall_trace [OF rc] t1 have t2: "trace s2 = trace s @ (evs @ [Recall None])"
        by simp
      from assms l Inr str None rc have "trace s' = trace s2" and xr: "x = r" and "res = res1"
        by (auto simp add: try_suite_def split: option.splits)
      with t2 have a: "trace s' = trace s @ (evs @ [Recall None])"
        by simp
      from r1 have b: "recalled (evs @ [Recall None])
          = map Some (pulled (evs @ [Recall None])) @ outputs (evs @ [Recall None]) @ [None]"
        by (simp add: recalled_append pulled_append outputs_append)
      from l1 have c: "length (outputs (evs @ [Recall None])) \<le> 1"
        by (simp add: outputs_append)
      from c1 \<open>res = res1\<close> have d: "res = concat (pulled (evs @ [Recall None]))"
        by (simp add: pulled_append)
      from rc xr have "fst (fst (output_recall env None (world s1))) = x"
        by (auto simp add: recall_def split: prod.splits)
      then have e: "x \<noteq> None \<longrightarrow> (\<exists>w. fst (fst (output_recall env None w)) = x)"
        by blast
      from k1' have f: "\<forall>response w. llm_inference env messages (world s) = (Inr response, w) \<longrightarrow>
          map Token (pulled (evs @ [Recall None]))
            = take (length (pulled (evs @ [Recall None]))) response"
        by (simp add: pulled_append)
      from a b c d e f show ?thesis
        by blast
    qed
  qed
qed

lemma begin_turn_trace:
  "begin_turn env node s = (r, s2) \<Longrightarrow>
   trace s2 = trace s @ Execute (node_id node)
     # (if \<not> isl (fst (system_prompt env (world s))) \<and> action node = S ''plan''
        then [Recall (Some (S ''\<newline>['' @ MemoryNode.content node @ S '']\<newline>''))] else [])"
proof -
  assume b: "begin_turn env node s = (r, s2)"
  obtain p w where p: "system_prompt env (world s) = (p, w)"
    by (metis prod.exhaust)
  show ?thesis
  proof (cases p)
    case (Inl e)
    with b p show ?thesis
      by (auto simp add: begin_turn_def Let_def)
  next
    case (Inr prompt)
    show ?thesis
    proof (cases "action node = S ''plan''")
      case False
      with b p Inr show ?thesis
        by (auto simp add: begin_turn_def Let_def)
    next
      case True
      let ?ins = "add_node_after (memory s) node (new_MemoryNode (S ''system'') (S ''answer'') [])"
      let ?s1 = "s\<lparr>trace := trace s @ [Execute (node_id node)], world := w,
                   memory := set_current_node (snd ?ins) (fst ?ins)\<rparr>"
      obtain x s' where rc: "recall env (Some (S ''\<newline>['' @ MemoryNode.content node @ S '']\<newline>'')) ?s1 = (x, s')"
        by (metis prod.exhaust)
      from recall_trace [OF rc] have "trace s' = trace s @ [Execute (node_id node),
          Recall (Some (S ''\<newline>['' @ MemoryNode.content node @ S '']\<newline>''))]"
        by simp
      moreover from b p Inr True rc have "s2 = s'"
        by (auto simp add: begin_turn_def Let_def split: option.splits)
      ultimately show ?thesis
        using p Inr True by simp
    qed
  qed
qed

lemma begin_turn_prompt:
  "begin_turn env node s = (Inr r, s2) \<Longrightarrow> \<not> isl (fst (system_prompt env (world s)))"
  by (auto simp add: begin_turn_def Let_def split: prod.splits sum.splits)

lemma begin_turn_header_raises:
  "begin_turn env node s = (Inl e, s2) \<Longrightarrow> \<not> isl (fst (system_prompt env (world s))) \<Longrightarrow>
   action node = S ''plan''"
  by (auto simp add: begin_turn_def Let_def split: prod.splits sum.splits if_splits)

lemma execute_node_calls:
  assumes b: "begin_turn env node s = (Inr (messages, answer_node), s2)"
    and t: "try_suite env messages node answer_node s2 = ((x, result, is_stop), s3)"
  shows "\<exists>r s4 fin.
        execute_node env node s = (r, s4)
        \<and> recalled (new_events s s4)
            = (if action node = S ''plan''
               then [Some (S ''\<newline>['' @ MemoryNode.content node @ S '']\<newline>'')] else [])
              @ map Some (pulled (new_events s s4)) @ outputs (new_events s s4) @ fin
              @ (case x of None \<Rightarrow> [] | Some e \<Rightarrow> if is_Exception e then [Some result] else [])
        \<and> length (outputs (new_events s s4)) \<le> 1
        \<and> result = concat (pulled (new_events s s4))
        \<and> (\<forall>response w. llm_inference env messages (world s2) = (Inr response, w) \<longrightarrow>
             map Token (pulled (new_events s s4))
               = take (length (pulled (new_events s s4))) response)
        \<and> (case x of
             None \<Rightarrow> fin = [None] \<and> r = Inr (node_id answer_node, is_stop)
           | Some e \<Rightarrow>
               (fin = [] \<or> fin = [None] \<and> (\<exists>w. fst (fst (output_recall env None w)) = Some e))
               \<and> (\<not> is_Exception e \<longrightarrow> r = Inl e))"
proof -
  let ?hdr = "if action node = S ''plan''
      then [Recall (Some (S ''\<newline>['' @ MemoryNode.content node @ S '']\<newline>''))] else []"
  let ?E0 = "Execute (node_id node) # ?hdr"
  from begin_turn_trace [OF b] begin_turn_prompt [OF b]
  have t2: "trace s2 = trace s @ ?E0"
    by simp
  have p0: "pulled ?E0 = []" and o0: "outputs ?E0 = []"
    and r0: "recalled ?E0 = (if action node = S ''plan''
        then [Some (S ''\<newline>['' @ MemoryNode.content node @ S '']\<newline>'')] else [])"
    by simp_all
  from try_suite_outputs [OF t] obtain evs fin where
    t3: "trace s3 = trace s2 @ evs"
    and r3: "recalled evs = map Some (pulled evs) @ outputs evs @ fin"
    and l3: "length (outputs evs) \<le> 1"
    and c3: "result = concat (pulled evs)"
    and n3: "x = None \<longrightarrow> fin = [None]"
    and e3: "x \<noteq> None \<longrightarrow>
          fin = [] \<or> fin = [None] \<and> (\<exists>w. fst (fst (output_recall env None w)) = x)"
    and k3: "\<forall>response w. llm_inference env messages (world s2) = (Inr response, w) \<longrightarrow>
          map Token (pulled evs) = take (length (pulled evs)) response"
    by blast
  show ?thesis
  proof (cases "\<exists>e. x = Some e \<and> is_Exception e")
    case False
    then have xc: "(case x of None \<Rightarrow> [] | Some e \<Rightarrow> if is_Exception e then [Some result] else [])
        = ([] :: pystr option list)"
      by (cases x) auto
    from False b t obtain r where ex: "execute_node env node s = (r, s3)"
      and rr: "case x of None \<Rightarrow> r = Inr (node_id answer_node, is_stop) | Some e \<Rightarrow> r = Inl e"
      by (cases x) (auto simp add: execute_node_def)
    from t2 t3 have ne: "new_events s s3 = ?E0 @ evs"
      by (simp add: new_events_def)
    have pe: "pulled (new_events s s3) = pulled evs"
      unfolding ne pulled_append p0 by simp
    have oe: "outputs (new_events s s3) = outputs evs"
      unfolding ne outputs_append o0 by simp
    have re: "recalled (new_events s s3)
        = (if action node = S ''plan''
           then [Some (S ''\<newline>['' @ MemoryNode.content node @ S '']\<newline>'')] else [])
          @ map Some (pulled evs) @ outputs evs @ fin"
      unfolding ne recalled_append r0 r3 by simp
    have cs: "case x of
             None \<Rightarrow> fin = [None] \<and> r = Inr (node_id answer_node, is_stop)
           | Some e \<Rightarrow>
               (fin = [] \<or> fin = [None] \<and> (\<exists>w. fst (fst (output_recall env None w)) = Some e))
               \<and> (\<not> is_Exception e \<longrightarrow> r = Inl e)"
      using n3 e3 rr by (cases x) auto
    from ex re l3 c3 k3 cs show ?thesis
      unfolding pe [symmetric] oe [symmetric] xc
      by (intro exI [of _ r] exI [of _ s3] exI [of _ fin]) simp
  next
    case True
    then obtain e where x: "x = Some e" and ie: "is_Exception e"
      by blast
    obtain y s3' where rc: "recall env (Some result) s3 = (y, s3')"
      by (metis prod.exhaust)
    from recall_trace [OF rc] have t4: "trace s3' = trace s3 @ [Recall (Some result)]" .
    from b t x ie rc obtain r s4 where ex: "execute_node env node s = (r, s4)"
      and t4': "trace s4 = trace s3'"
      by (cases y) (auto simp add: execute_node_def except_suite_def)
    from t2 t3 t4 t4' have ne: "new_events s s4 = ?E0 @ evs @ [Recall (Some result)]"
      by (simp add: new_events_def)
    have pe: "pulled (new_events s s4) = pulled evs"
      unfolding ne pulled_append p0 by simp
    have oe: "outputs (new_events s s4) = outputs evs"
      unfolding ne outputs_append o0 by simp
    have re: "recalled (new_events s s4)
        = (if action node = S ''plan''
           then [Some (S ''\<newline>['' @ MemoryNode.content node @ S '']\<newline>'')] else [])
          @ map Some (pulled evs) @ outputs evs @ fin @ [Some result]"
      unfolding ne recalled_append r0 r3 by simp
    have cs: "(fin = [] \<or> fin = [None] \<and> (\<exists>w. fst (fst (output_recall env None w)) = Some e))
               \<and> (\<not> is_Exception e \<longrightarrow> r = Inl e)"
      using e3 x ie by simp
    from ex re l3 c3 k3 cs show ?thesis
      unfolding pe [symmetric] oe [symmetric] x
      by (intro exI [of _ r] exI [of _ s4] exI [of _ fin]) (simp add: ie)
  qed
qed

lemma begin_turn_calls:
  assumes b: "begin_turn env node s = (Inl e, s2)"
  shows "execute_node env node s = (Inl e, s2)
        \<and> pulled (new_events s s2) = []
        \<and> outputs (new_events s s2) = []
        \<and> recalled (new_events s s2)
            = (if isl (fst (system_prompt env (world s))) then []
               else [Some (S ''\<newline>['' @ MemoryNode.content node @ S '']\<newline>'')])"
proof -
  from b have ex: "execute_node env node s = (Inl e, s2)"
    by (simp add: execute_node_def)
  from begin_turn_trace [OF b] begin_turn_header_raises [OF b]
  have "new_events s s2 = Execute (node_id node)
     # (if isl (fst (system_prompt env (world s))) then []
        else [Recall (Some (S ''\<newline>['' @ MemoryNode.content node @ S '']\<newline>''))])"
    by (auto simp add: new_events_def)
  with ex show ?thesis
    by simp
qed

subsection \<open>What a run raises and returns\<close>

lemma recall_quiet:
  "\<forall>x w. fst (fst (output_recall env x w)) = None \<Longrightarrow> fst (recall env x s) = None"
  by (auto simp add: recall_def split: prod.splits) (metis fst_conv)

lemma dispatch_raises:
  assumes "\<forall>x w. fst (fst (output_recall env x w)) = None"
    and "\<forall>i b w e. fst (parse env i b w) = Inl e \<longrightarrow> is_Exception e"
  shows "dispatch env is buf s = ((Some e, brk, st), s') \<Longrightarrow> is_Exception e"
proof (induction "is")
  case Nil
  then show ?case by simp
next
  case (Cons a "is")
  show ?case
  proof (cases "match_template env a buf")
    case False
    with Cons show ?thesis by simp
  next
    case True
    obtain p w where p: "parse env a buf (world s) = (p, w)"
      by (metis prod.exhaust)
    show ?thesis
    proof (cases p)
      case (Inl e')
      with Cons.prems True p have "e = e'" by simp
      with assms(2) p Inl show ?thesis
        by (metis fst_conv)
    next
      case (Inr os)
      obtain out st' where os: "os = (out, st')"
        by (metis prod.exhaust)
      let ?s1 = "s\<lparr>world := w, trace := trace s @ [Parse a buf (Inr (out, st'))]\<rparr>"
      from recall_quiet [OF assms(1)]
      have "fst (recall env (Some (S ''\<newline>'' @ out @ S ''\<newline>'')) ?s1) = None" .
      with Cons.prems True p Inr os show ?thesis
        by (auto split: prod.splits option.splits)
    qed
  qed
qed

lemma stream_raises:
  assumes "\<forall>x w. fst (fst (output_recall env x w)) = None"
    and "\<forall>i b w e. fst (parse env i b w) = Inl e \<longrightarrow> is_Exception e"
  shows "stream env its result s = ((Some e, res, st), s') \<Longrightarrow>
         \<forall>e. Fails e \<in> set its \<longrightarrow> is_Exception e \<Longrightarrow> is_Exception e"
  using assms
proof (induction env its result s arbitrary: res st s' rule: stream.induct)
  case (1 env result s)
  then show ?case by simp
next
  case (2 env e' its result s)
  then show ?case by auto
next
  case (3 env its result s)
  then show ?case by auto
next
  case (4 env t its result s)
  obtain r1 s1 where rc: "recall env (Some t) (s\<lparr>trace := trace s @ [Pull (Token t)]\<rparr>) = (r1, s1)"
    by (metis prod.exhaust)
  from recall_quiet [OF "4.prems"(3), of "Some t" "s\<lparr>trace := trace s @ [Pull (Token t)]\<rparr>"] rc
  have None: "r1 = None"
    by simp
  obtain y brk st2 s2 where d: "dispatch env output_interpreters (result @ t) s1 = ((y, brk, st2), s2)"
    by (metis prod.exhaust)
  show ?case
  proof (cases y)
    case (Some e')
    with "4.prems"(1) rc None d have "e = e'"
      by simp
    with dispatch_raises [OF "4.prems"(3,4)] d Some show ?thesis
      by blast
  next
    case yn: None
    show ?thesis
    proof (cases brk)
      case True
      with "4.prems"(1) rc None d yn show ?thesis by simp
    next
      case False
      with "4.prems"(1) rc None d yn
      have "stream env its (result @ t) s2 = ((Some e, res, st), s')"
        by simp
      from "4.IH" [OF rc [symmetric] None d [symmetric] refl yn refl False this _ "4.prems"(3,4)]
        "4.prems"(2)
      show ?thesis by simp
    qed
  qed
qed

lemma try_suite_raises:
  assumes "guarded_env env"
    and "try_suite env messages node answer_node s = ((Some e, res, st), s')"
  shows "is_Exception e"
proof -
  from assms(1) have cb: "\<forall>x w. fst (fst (output_recall env x w)) = None"
    and pa: "\<forall>i b w e. fst (parse env i b w) = Inl e \<longrightarrow> is_Exception e"
    and l1: "\<forall>ms w e. fst (llm_inference env ms w) = Inl e \<longrightarrow> is_Exception e"
    and l2: "\<forall>ms w r e. fst (llm_inference env ms w) = Inr r \<and> Fails e \<in> set r \<longrightarrow> is_Exception e"
    by (simp_all add: guarded_env_def)
  obtain l w where l: "llm_inference env messages (world s) = (l, w)"
    by (metis prod.exhaust)
  show ?thesis
  proof (cases l)
    case (Inl e')
    with assms(2) l have "e = e'"
      by (simp add: try_suite_def)
    with l1 l Inl show ?thesis
      by (metis fst_conv)
  next
    case (Inr response)
    from l2 l Inr have f: "\<forall>e. Fails e \<in> set response \<longrightarrow> is_Exception e"
      by (metis fst_conv)
    obtain y res1 st1 s1 where str: "stream env response [] (s\<lparr>world := w\<rparr>) = ((y, res1, st1), s1)"
      by (metis prod.exhaust)
    show ?thesis
    proof (cases y)
      case (Some e')
      with assms(2) l Inr str have "e = e'"
        by (simp add: try_suite_def)
      with stream_raises [OF cb pa _ f] str Some show ?thesis
        by blast
    next
      case None
      from recall_quiet [OF cb, of None s1] assms(2) l Inr str None show ?thesis
        by (auto simp add: try_suite_def split: prod.splits option.splits)
    qed
  qed
qed

lemma begin_turn_returns:
  assumes "guarded_env env"
  shows "\<not> isl (fst (begin_turn env node s))"
proof -
  from assms have cb: "\<forall>x w. fst (fst (output_recall env x w)) = None"
    and sp: "\<forall>w. \<not> isl (fst (system_prompt env w))"
    by (simp_all add: guarded_env_def)
  let ?s = "s\<lparr>trace := trace s @ [Execute (node_id node)]\<rparr>"
  obtain p w where p: "system_prompt env (world ?s) = (p, w)"
    by (metis prod.exhaust)
  with sp have "\<not> isl p"
    by (metis fst_conv)
  then obtain prompt where pr: "p = Inr prompt"
    by (cases p) auto
  let ?added = "add_node_after (memory ?s) node (new_MemoryNode (S ''system'') (S ''answer'') [])"
  let ?s1 = "?s\<lparr>world := w, memory := set_current_node (snd ?added) (fst ?added)\<rparr>"
  obtain r s2 where rc: "recall env (Some (S ''\<newline>['' @ MemoryNode.content node @ S '']\<newline>'')) ?s1 = (r, s2)"
    by (metis prod.exhaust)
  from recall_quiet [OF cb, of "Some (S ''\<newline>['' @ MemoryNode.content node @ S '']\<newline>'')" ?s1] rc
  have "r = None"
    by simp
  with p pr rc show ?thesis
    by (simp add: begin_turn_def Let_def)
qed

lemma execute_node_returns:
  assumes "guarded_env env"
  shows "\<not> isl (fst (execute_node env node s))"
proof -
  from assms have cb: "\<forall>x w. fst (fst (output_recall env x w)) = None"
    by (simp add: guarded_env_def)
  obtain b s2 where b: "begin_turn env node s = (b, s2)"
    by (metis prod.exhaust)
  with begin_turn_returns [OF assms, of node s] obtain messages answer_node
    where bi: "b = Inr (messages, answer_node)"
    by (cases b) auto
  obtain x res st s3 where t: "try_suite env messages node answer_node s2 = ((x, res, st), s3)"
    by (metis prod.exhaust)
  show ?thesis
  proof (cases x)
    case None
    with b bi t show ?thesis
      by (simp add: execute_node_def)
  next
    case (Some e)
    with try_suite_raises [OF assms] t have "is_Exception e"
      by blast
    with b bi t Some recall_quiet [OF cb, of "Some res" s3] show ?thesis
      by (auto simp add: execute_node_def except_suite_def split: prod.splits option.splits)
  qed
qed

lemma run_loop_returns:
  assumes "guarded_env env"
  shows "run_loop k env todo s \<noteq> Some (Inl e, s')"
proof (induction k arbitrary: todo s)
  case 0
  then show ?case by (cases todo) simp_all
next
  case (Suc k)
  show ?case
  proof (cases todo)
    case None
    then show ?thesis by simp
  next
    case (Some todo_node)
    obtain r s1 where ex: "execute_node env todo_node s = (r, s1)"
      by (metis prod.exhaust)
    with execute_node_returns [OF assms, of todo_node s] obtain i st where r: "r = Inr (i, st)"
      by (cases r) auto
    obtain stopped w where y: "yield env (world s1) = (stopped, w)"
      by (metis prod.exhaust)
    from Some ex r y Suc.IH show ?thesis
      by (simp add: Let_def)
  qed
qed

lemma run_loop_id:
  "run_loop k env todo s = Some (Inr (Some i), s') \<Longrightarrow>
   \<exists>node s1. execute_node env node s1 = (Inr (i, True), s')"
proof (induction k arbitrary: todo s)
  case 0
  then show ?case by (cases todo) simp_all
next
  case (Suc k)
  show ?case
  proof (cases todo)
    case None
    with Suc.prems show ?thesis by simp
  next
    case (Some todo_node)
    obtain r s1 where ex: "execute_node env todo_node s = (r, s1)"
      by (metis prod.exhaust)
    show ?thesis
    proof (cases r)
      case (Inl e)
      with Suc.prems Some ex show ?thesis by simp
    next
      case (Inr p)
      obtain j st where p: "p = (j, st)"
        by (metis prod.exhaust)
      show ?thesis
      proof (cases st)
        case True
        with Suc.prems Some ex Inr p have "execute_node env todo_node s = (Inr (i, True), s')"
          by simp
        then show ?thesis by blast
      next
        case False
        obtain stopped w where y: "yield env (world s1) = (stopped, w)"
          by (metis prod.exhaust)
        from Suc.prems Some ex Inr p False y Suc.IH show ?thesis
          by (auto simp add: Let_def split: if_splits)
      qed
    qed
  qed
qed

lemma run_loop_none:
  "run_loop k env todo s = Some (Inr None, s') \<Longrightarrow>
   \<not> is_running s' \<and> (stop_event s' \<or> get_todo_node (memory s') = None \<or> todo = None)"
proof (induction k arbitrary: todo s)
  case 0
  then show ?case by (cases todo) auto
next
  case (Suc k)
  show ?case
  proof (cases todo)
    case None
    with Suc.prems show ?thesis by auto
  next
    case (Some todo_node)
    obtain r s1 where ex: "execute_node env todo_node s = (r, s1)"
      by (metis prod.exhaust)
    show ?thesis
    proof (cases r)
      case (Inl e)
      with Suc.prems Some ex show ?thesis by simp
    next
      case (Inr p)
      obtain j st where p: "p = (j, st)"
        by (metis prod.exhaust)
      show ?thesis
      proof (cases st)
        case True
        with Suc.prems Some ex Inr p show ?thesis by simp
      next
        case False
        obtain stopped w where y: "yield env (world s1) = (stopped, w)"
          by (metis prod.exhaust)
        let ?s3 = "s1\<lparr>world := w, stop_event := (stop_event s1 \<or> stopped),
            trace := trace s1 @ [Poll (stop_event s1 \<or> stopped)]\<rparr>"
        show ?thesis
        proof (cases "stop_event s1 \<or> stopped")
          case True
          with Suc.prems Some ex Inr p False y show ?thesis
            by (auto simp add: Let_def)
        next
          case ns: False
          with Suc.prems Some ex Inr p False y
          have rl: "run_loop k env (get_todo_node (memory s1)) ?s3 = Some (Inr None, s')"
            by (simp add: Let_def)
          show ?thesis
          proof (cases "get_todo_node (memory s1)")
            case None
            with rl show ?thesis by auto
          next
            case (Some n)
            with Suc.IH [OF rl] show ?thesis by auto
          qed
        qed
      qed
    qed
  qed
qed

lemma run_loop_cancel_or_exhaust:
  assumes "execute_node env node s = (Inr (i, False), s1)"
    and "stop_event s1 \<or> get_todo_node (memory s1) = None"
  shows "\<exists>s2. run_loop (Suc k) env (Some node) s = Some (Inr None, s2)"
proof -
  obtain stopped w where y: "yield env (world s1) = (stopped, w)"
    by (metis prod.exhaust)
  show ?thesis
  proof (cases "stop_event s1 \<or> stopped")
    case True
    with assms(1) y show ?thesis
      by (auto simp add: Let_def)
  next
    case False
    with assms y show ?thesis
      by (simp add: Let_def)
  qed
qed

lemma input_interpreter_returns:
  assumes "guarded_env env"
  shows "fst (input_interpreter env input_node s) = None"
proof -
  from assms have pp: "\<forall>c m w. \<not> isl (fst (plan_parse env c m w))"
    by (simp add: guarded_env_def)
  let ?s1 = "s\<lparr>memory := set_current_node (memory s) input_node\<rparr>"
  obtain p w where p: "plan_parse env (MemoryNode.content input_node) (memory ?s1) (world ?s1) = (p, w)"
    by (metis prod.exhaust)
  with pp have "\<not> isl p"
    by (metis fst_conv)
  then obtain m where "p = Inr m"
    by (cases p) auto
  with p show ?thesis
    by (simp add: input_interpreter_def Let_def)
qed

lemma insert_node_returns:
  "\<forall>j. for_node_id = Some j \<longrightarrow> get_node m j \<noteq> None \<Longrightarrow> \<not> isl (insert_node m inp for_node_id)"
  by (auto simp add: insert_node_def Let_def split: option.splits prod.splits)

lemmas run_defs = run_def insert_node_def input_interpreter_def

subsection \<open>One iteration of the loop, and what leaves a turn\<close>

lemma run_loop_stop:
  "execute_node env node s = (Inr (i, True), s1) \<Longrightarrow>
   run_loop (Suc k) env (Some node) s = Some (Inr (Some i), s1)"
  by simp

lemma run_loop_raise:
  "execute_node env node s = (Inl e, s1) \<Longrightarrow>
   run_loop (Suc k) env (Some node) s = Some (Inl e, s1)"
  by simp

lemma run_loop_poll:
  "execute_node env node s = (Inr (i, False), s1) \<Longrightarrow> yield env (world s1) = (stopped, w) \<Longrightarrow>
   run_loop (Suc k) env (Some node) s
     = (if stop_event s1 \<or> stopped
        then Some (Inr None,
               s1\<lparr>world := w, stop_event := True, trace := trace s1 @ [Poll True],
                   is_running := False\<rparr>)
        else run_loop k env (get_todo_node (memory s1))
               (s1\<lparr>world := w, stop_event := False, trace := trace s1 @ [Poll False]\<rparr>))"
  by (simp add: Let_def)

lemma execute_node_begin_raises:
  "begin_turn env node s = (Inl e, s2) \<Longrightarrow> execute_node env node s = (Inl e, s2)"
  by (simp add: execute_node_def)

lemma execute_node_base:
  "begin_turn env node s = (Inr (messages, answer_node), s2) \<Longrightarrow>
   try_suite env messages node answer_node s2 = ((Some e, result, is_stop), s3) \<Longrightarrow>
   \<not> is_Exception e \<Longrightarrow> execute_node env node s = (Inl e, s3)"
  by (simp add: execute_node_def)

lemma execute_node_handler_raises:
  "begin_turn env node s = (Inr (messages, answer_node), s2) \<Longrightarrow>
   try_suite env messages node answer_node s2 = ((Some e, result, is_stop), s3) \<Longrightarrow>
   is_Exception e \<Longrightarrow> fst (fst (output_recall env (Some result) (world s3))) = Some e' \<Longrightarrow>
   fst (execute_node env node s) = Inl e'"
  by (auto simp add: execute_node_def except_suite_def recall_def split: prod.splits)

lemma execute_node_completes:
  "begin_turn env node s = (Inr (messages, answer_node), s2) \<Longrightarrow>
   try_suite env messages node answer_node s2 = ((None, result, is_stop), s3) \<Longrightarrow>
   execute_node env node s = (Inr (node_id answer_node, is_stop), s3)"
  by (simp add: execute_node_def)

lemma run_no_input:
  "run k env None for_node_id s = run_loop k env (get_todo_node (memory s)) (s\<lparr>is_running := True\<rparr>)"
  by (simp add: run_def Let_def)

lemma run_insert_raises:
  "insert_node (memory s) inp for_node_id = Inl e \<Longrightarrow>
   run k env (Some inp) for_node_id s = Some (Inl e, s\<lparr>is_running := True\<rparr>)"
  by (simp add: run_def Let_def)

lemma run_input_raises:
  "insert_node (memory s) inp for_node_id = Inr (input_node, m) \<Longrightarrow>
   input_interpreter env input_node (s\<lparr>is_running := True, memory := m\<rparr>) = (Some e, s1) \<Longrightarrow>
   run k env (Some inp) for_node_id s = Some (Inl e, s1)"
  by (simp add: run_def Let_def)

lemma run_input:
  "insert_node (memory s) inp for_node_id = Inr (input_node, m) \<Longrightarrow>
   input_interpreter env input_node (s\<lparr>is_running := True, memory := m\<rparr>) = (None, s1) \<Longrightarrow>
   run k env (Some inp) for_node_id s
     = run_loop k env (case get_todo_node (memory s1) of Some n \<Rightarrow> Some n | None \<Rightarrow> Some input_node) s1"
  by (simp add: run_def Let_def)

subsection \<open>The events of a turn and of a run\<close>

lemma polls_append: "polls (xs @ ys) = polls xs + polls ys"
  by (induction xs rule: polls.induct) simp_all

lemma executes_append: "executes (xs @ ys) = executes xs + executes ys"
  by (induction xs rule: executes.induct) simp_all

lemma inner_append: "inner xs \<Longrightarrow> inner ys \<Longrightarrow> inner (xs @ ys)"
  by (simp add: inner_def polls_append executes_append)

lemma dispatch_inner:
  "dispatch env is buf s = (r, s') \<Longrightarrow> \<exists>evs. trace s' = trace s @ evs \<and> inner evs"
proof -
  assume d: "dispatch env is buf s = (r, s')"
  from dispatch_calls [OF d] obtain evs where t: "trace s' = trace s @ evs"
    by blast
  obtain x brk st where "r = (x, brk, st)"
    by (metis prod.exhaust)
  with d have d': "dispatch env is buf s = ((x, brk, st), s')"
    by simp
  show ?thesis
  proof (cases "find (\<lambda>k. match_template env k buf) is")
    case None
    with dispatch_no_match [OF None, of s] d have "trace s' = trace s @ []"
      by simp
    moreover have "inner []"
      by (simp add: inner_def)
    ultimately show ?thesis by blast
  next
    case (Some i)
    from dispatch_first_match [OF Some, of s] d
    have "trace s' = trace s @ Parse i buf (fst (parse env i buf (world s)))
       # (case fst (parse env i buf (world s)) of
            Inl e \<Rightarrow> []
          | Inr r \<Rightarrow> [Recall (Some (S ''\<newline>'' @ fst r @ S ''\<newline>''))])"
      by simp
    moreover have "inner (Parse i buf (fst (parse env i buf (world s)))
       # (case fst (parse env i buf (world s)) of
            Inl e \<Rightarrow> []
          | Inr r \<Rightarrow> [Recall (Some (S ''\<newline>'' @ fst r @ S ''\<newline>''))]))"
      by (simp add: inner_def split: sum.splits)
    ultimately show ?thesis by blast
  qed
qed

lemma stream_inner:
  "stream env its result s = (r, s') \<Longrightarrow> \<exists>evs. trace s' = trace s @ evs \<and> inner evs"
proof (induction env its result s arbitrary: r s' rule: stream.induct)
  case (1 env result s)
  then have "trace s' = trace s @ []" by simp
  moreover have "inner []" by (simp add: inner_def)
  ultimately show ?case by blast
next
  case (2 env e its result s)
  then have "trace s' = trace s @ [Pull (Fails e)]" by auto
  moreover have "inner [Pull (Fails e)]" by (simp add: inner_def)
  ultimately show ?case by blast
next
  case (3 env its result s)
  then have "trace s' = trace s @ [Pull NoneToken]" by auto
  moreover have "inner [Pull NoneToken]" by (simp add: inner_def)
  ultimately show ?case by blast
next
  case (4 env t its result s)
  obtain r1 s1 where rc: "recall env (Some t) (s\<lparr>trace := trace s @ [Pull (Token t)]\<rparr>) = (r1, s1)"
    by (metis prod.exhaust)
  from recall_trace [OF rc] have t1: "trace s1 = trace s @ [Pull (Token t), Recall (Some t)]"
    by simp
  have i1: "inner [Pull (Token t), Recall (Some t)]"
    by (simp add: inner_def)
  show ?case
  proof (cases r1)
    case (Some e)
    with "4.prems" rc have "s' = s1" by auto
    with t1 i1 show ?thesis by blast
  next
    case None
    obtain y brk st2 s2 where d: "dispatch env output_interpreters (result @ t) s1 = ((y, brk, st2), s2)"
      by (metis prod.exhaust)
    from dispatch_inner [OF d] obtain evs where
      t2: "trace s2 = trace s1 @ evs" and i2: "inner evs"
      by blast
    from t1 t2 have t12: "trace s2 = trace s @ ([Pull (Token t), Recall (Some t)] @ evs)"
      by simp
    note i12 = inner_append [OF i1 i2]
    show ?thesis
    proof (cases "y = None \<and> \<not> brk")
      case False
      with "4.prems" rc None d have "s' = s2"
        by (auto split: option.splits if_splits)
      with t12 i12 show ?thesis by blast
    next
      case True
      with "4.prems" rc None d have "stream env its (result @ t) s2 = (r, s')"
        by simp
      from "4.IH" [OF rc [symmetric] None d [symmetric] refl _ refl _ this] True
      obtain evs' where t3: "trace s' = trace s2 @ evs'" and i3: "inner evs'"
        by auto
      from t3 t12 have "trace s' = trace s @ (([Pull (Token t), Recall (Some t)] @ evs) @ evs')"
        by simp
      with inner_append [OF i12 i3] show ?thesis by blast
    qed
  qed
qed

lemma try_suite_inner:
  assumes "try_suite env messages node answer_node s = (r, s')"
  shows "\<exists>evs. trace s' = trace s @ evs \<and> inner evs"
proof -
  obtain l w where l: "llm_inference env messages (world s) = (l, w)"
    by (metis prod.exhaust)
  have i0: "inner []" by (simp add: inner_def)
  show ?thesis
  proof (cases l)
    case (Inl e)
    with assms l have "trace s' = trace s @ []"
      by (auto simp add: try_suite_def)
    with i0 show ?thesis by blast
  next
    case (Inr response)
    obtain y res1 st1 s1 where str: "stream env response [] (s\<lparr>world := w\<rparr>) = ((y, res1, st1), s1)"
      by (metis prod.exhaust)
    from stream_inner [OF str] obtain evs where
      t1: "trace s1 = trace s @ evs" and i1: "inner evs"
      by auto
    show ?thesis
    proof (cases y)
      case (Some e)
      with assms l Inr str have "s' = s1"
        by (auto simp add: try_suite_def)
      with t1 i1 show ?thesis by blast
    next
      case None
      obtain rr s2 where rc: "recall env None s1 = (rr, s2)"
        by (metis prod.exhaust)
      from recall_trace [OF rc] t1 have t2: "trace s2 = trace s @ (evs @ [Recall None])"
        by simp
      have "inner [Recall None]" by (simp add: inner_def)
      note i2 = inner_append [OF i1 this]
      from assms l Inr str None rc have "trace s' = trace s2"
        by (auto simp add: try_suite_def split: option.splits)
      with t2 i2 show ?thesis by metis
    qed
  qed
qed

lemma except_suite_inner:
  assumes "except_suite env node answer_node result is_stop s = (r, s')"
  shows "\<exists>evs. trace s' = trace s @ evs \<and> inner evs"
proof -
  obtain rr s1 where rc: "recall env (Some result) s = (rr, s1)"
    by (metis prod.exhaust)
  from recall_trace [OF rc] have "trace s1 = trace s @ [Recall (Some result)]" .
  moreover from assms rc have "trace s' = trace s1"
    by (auto simp add: except_suite_def split: option.splits)
  moreover have "inner [Recall (Some result)]" by (simp add: inner_def)
  ultimately show ?thesis by metis
qed

lemma begin_turn_inner:
  assumes "begin_turn env node s = (r, s')"
  shows "\<exists>evs. trace s' = trace s @ Execute (node_id node) # evs \<and> inner evs"
proof -
  let ?s = "s\<lparr>trace := trace s @ [Execute (node_id node)]\<rparr>"
  have i0: "inner []" by (simp add: inner_def)
  obtain p w where p: "system_prompt env (world ?s) = (p, w)"
    by (metis prod.exhaust)
  show ?thesis
  proof (cases p)
    case (Inl e)
    with assms p have "trace s' = trace s @ Execute (node_id node) # []"
      by (auto simp add: begin_turn_def Let_def)
    with i0 show ?thesis by blast
  next
    case (Inr prompt)
    let ?added = "add_node_after (memory ?s) node (new_MemoryNode (S ''system'') (S ''answer'') [])"
    let ?s1 = "?s\<lparr>world := w, memory := set_current_node (snd ?added) (fst ?added)\<rparr>"
    show ?thesis
    proof (cases "action node = S ''plan''")
      case False
      with assms p Inr have "trace s' = trace s @ Execute (node_id node) # []"
        by (auto simp add: begin_turn_def Let_def)
      with i0 show ?thesis by blast
    next
      case True
      obtain rr s2 where rc: "recall env (Some (S ''\<newline>['' @ MemoryNode.content node @ S '']\<newline>'')) ?s1 = (rr, s2)"
        by (metis prod.exhaust)
      from recall_trace [OF rc]
      have "trace s2 = trace s @ Execute (node_id node)
          # [Recall (Some (S ''\<newline>['' @ MemoryNode.content node @ S '']\<newline>''))]"
        by simp
      moreover from assms p Inr True rc have "trace s' = trace s2"
        by (auto simp add: begin_turn_def Let_def split: option.splits)
      moreover have "inner [Recall (Some (S ''\<newline>['' @ MemoryNode.content node @ S '']\<newline>''))]"
        by (simp add: inner_def)
      ultimately show ?thesis by metis
    qed
  qed
qed

lemma execute_node_inner:
  assumes "execute_node env node s = (r, s')"
  shows "\<exists>evs. trace s' = trace s @ Execute (node_id node) # evs \<and> inner evs"
proof -
  obtain b s2 where b: "begin_turn env node s = (b, s2)"
    by (metis prod.exhaust)
  from begin_turn_inner [OF b] obtain evs where
    t2: "trace s2 = trace s @ Execute (node_id node) # evs" and i2: "inner evs"
    by blast
  show ?thesis
  proof (cases b)
    case (Inl e)
    with assms b have "s' = s2"
      by (simp add: execute_node_def)
    with t2 i2 show ?thesis by blast
  next
    case (Inr ma)
    obtain messages answer_node where ma: "ma = (messages, answer_node)"
      by (metis prod.exhaust)
    obtain x res st s3 where t: "try_suite env messages node answer_node s2 = ((x, res, st), s3)"
      by (metis prod.exhaust)
    from try_suite_inner [OF t] obtain evs3 where
      t3: "trace s3 = trace s2 @ evs3" and i3: "inner evs3"
      by blast
    from t2 t3 have t23: "trace s3 = trace s @ Execute (node_id node) # (evs @ evs3)"
      by simp
    note i23 = inner_append [OF i2 i3]
    show ?thesis
    proof (cases "\<exists>e. x = Some e \<and> is_Exception e")
      case False
      with assms b Inr ma t have "s' = s3"
        by (cases x) (auto simp add: execute_node_def)
      with t23 i23 show ?thesis by blast
    next
      case True
      with assms b Inr ma t have "except_suite env node answer_node res st s3 = (r, s')"
        by (auto simp add: execute_node_def)
      from except_suite_inner [OF this] obtain evs4 where
        t4: "trace s' = trace s3 @ evs4" and i4: "inner evs4"
        by blast
      from t4 t23 have "trace s' = trace s @ Execute (node_id node) # ((evs @ evs3) @ evs4)"
        by simp
      with inner_append [OF i23 i4] show ?thesis by blast
    qed
  qed
qed

lemma run_loop_polls:
  "run_loop k env todo s = Some (r, s') \<Longrightarrow>
   \<exists>evs. trace s' = trace s @ evs
     \<and> polls evs + (case r of Inr None \<Rightarrow> 0 | Inr (Some i) \<Rightarrow> 1 | Inl e \<Rightarrow> 1) = executes evs"
proof (induction k arbitrary: todo s)
  case 0
  then have "trace s' = trace s @ [] \<and> r = Inr None"
    by (cases todo) auto
  then show ?case by auto
next
  case (Suc k)
  show ?case
  proof (cases todo)
    case None
    with Suc.prems have "trace s' = trace s @ [] \<and> r = Inr None"
      by auto
    then show ?thesis by auto
  next
    case (Some todo_node)
    obtain x s1 where ex: "execute_node env todo_node s = (x, s1)"
      by (metis prod.exhaust)
    from execute_node_inner [OF ex] obtain evs where
      t1: "trace s1 = trace s @ Execute (node_id todo_node) # evs" and i1: "inner evs"
      by blast
    from i1 have c1: "polls (Execute (node_id todo_node) # evs) = 0"
      "executes (Execute (node_id todo_node) # evs) = 1"
      by (simp_all add: inner_def)
    show ?thesis
    proof (cases x)
      case (Inl e)
      with Suc.prems Some ex have "s' = s1" and "r = Inl e"
        by simp_all
      with t1 c1 show ?thesis by auto
    next
      case (Inr p)
      obtain j st where p: "p = (j, st)"
        by (metis prod.exhaust)
      show ?thesis
      proof (cases st)
        case True
        with Suc.prems Some ex Inr p have "s' = s1" and "r = Inr (Some j)"
          by simp_all
        with t1 c1 show ?thesis by auto
      next
        case False
        obtain stopped w where y: "yield env (world s1) = (stopped, w)"
          by (metis prod.exhaust)
        let ?b = "stop_event s1 \<or> stopped"
        let ?s3 = "s1\<lparr>world := w, stop_event := ?b, trace := trace s1 @ [Poll ?b]\<rparr>"
        have t3: "trace ?s3 = trace s @ (Execute (node_id todo_node) # evs @ [Poll ?b])"
          using t1 by simp
        have c3: "polls (Execute (node_id todo_node) # evs @ [Poll ?b]) = 1"
          "executes (Execute (node_id todo_node) # evs @ [Poll ?b]) = 1"
          using i1 by (simp_all add: inner_def polls_append executes_append)
        show ?thesis
        proof (cases ?b)
          case True
          with Suc.prems Some ex Inr p False y
          have "trace s' = trace ?s3" and "r = Inr None"
            by (auto simp add: Let_def)
          with t3 c3 show ?thesis
            by (metis add.right_neutral option.simps(4) sum.simps(6))
        next
          case ns: False
          with Suc.prems Some ex Inr p False y
          have "run_loop k env (get_todo_node (memory s1)) ?s3 = Some (r, s')"
            by (simp add: Let_def)
          from Suc.IH [OF this] obtain evs' where
            t4: "trace s' = trace ?s3 @ evs'"
            and c4: "polls evs' + (case r of Inr None \<Rightarrow> 0 | Inr (Some i) \<Rightarrow> 1 | Inl e \<Rightarrow> 1) = executes evs'"
            by blast
          from t4 t3 have "trace s' = trace s @ ((Execute (node_id todo_node) # evs @ [Poll ?b]) @ evs')"
            by simp
          moreover from c3 c4
          have "polls ((Execute (node_id todo_node) # evs @ [Poll ?b]) @ evs')
              + (case r of Inr None \<Rightarrow> 0 | Inr (Some i) \<Rightarrow> 1 | Inl e \<Rightarrow> 1)
              = executes ((Execute (node_id todo_node) # evs @ [Poll ?b]) @ evs')"
            by (simp add: polls_append executes_append)
          ultimately show ?thesis by blast
        qed
      qed
    qed
  qed
qed

subsection \<open>A turn does not read the stop flag\<close>

lemma flag_out:
  "(s\<lparr>stop_event := b\<rparr>)\<lparr>trace := t\<rparr> = (s\<lparr>trace := t\<rparr>)\<lparr>stop_event := b\<rparr>"
  "(s\<lparr>stop_event := b\<rparr>)\<lparr>world := w\<rparr> = (s\<lparr>world := w\<rparr>)\<lparr>stop_event := b\<rparr>"
  "(s\<lparr>stop_event := b\<rparr>)\<lparr>memory := m\<rparr> = (s\<lparr>memory := m\<rparr>)\<lparr>stop_event := b\<rparr>"
  by simp_all

lemma recall_flag:
  "recall env x (s\<lparr>stop_event := True\<rparr>)
     = (fst (recall env x s), (snd (recall env x s))\<lparr>stop_event := True\<rparr>)"
  by (simp add: recall_def split: prod.splits)

lemma dispatch_flag:
  "dispatch env is buf (s\<lparr>stop_event := True\<rparr>)
     = (fst (dispatch env is buf s), (snd (dispatch env is buf s))\<lparr>stop_event := True\<rparr>)"
proof (induction "is")
  case Nil
  then show ?case by simp
next
  case (Cons a "is")
  show ?case
  proof (cases "match_template env a buf")
    case False
    with Cons show ?thesis by simp
  next
    case True
    obtain p w where p: "parse env a buf (world s) = (p, w)"
      by (metis prod.exhaust)
    show ?thesis
    proof (cases p)
      case (Inl e)
      with True p show ?thesis by (simp add: flag_out)
    next
      case (Inr os)
      obtain out st' where os: "os = (out, st')"
        by (metis prod.exhaust)
      let ?s1 = "s\<lparr>world := w, trace := trace s @ [Parse a buf (Inr (out, st'))]\<rparr>"
      have "(s\<lparr>stop_event := True\<rparr>)\<lparr>world := w, trace := trace s @ [Parse a buf (Inr (out, st'))]\<rparr>
          = ?s1\<lparr>stop_event := True\<rparr>"
        by simp
      with True p Inr os recall_flag [of env "Some (S ''\<newline>'' @ out @ S ''\<newline>'')" ?s1]
      show ?thesis
        by (simp add: flag_out split: prod.splits option.splits)
    qed
  qed
qed

lemma stream_flag:
  "stream env its result (s\<lparr>stop_event := True\<rparr>)
     = (fst (stream env its result s), (snd (stream env its result s))\<lparr>stop_event := True\<rparr>)"
proof (induction env its result s rule: stream.induct)
  case (1 env result s)
  then show ?case by simp
next
  case (2 env e its result s)
  then show ?case by (simp add: flag_out)
next
  case (3 env its result s)
  then show ?case by (simp add: flag_out)
next
  case (4 env t its result s)
  let ?s0 = "s\<lparr>trace := trace s @ [Pull (Token t)]\<rparr>"
  have u: "(s\<lparr>stop_event := True\<rparr>)\<lparr>trace := trace (s\<lparr>stop_event := True\<rparr>) @ [Pull (Token t)]\<rparr>
      = ?s0\<lparr>stop_event := True\<rparr>"
    by simp
  obtain r1 s1 where rc: "recall env (Some t) ?s0 = (r1, s1)"
    by (metis prod.exhaust)
  with recall_flag [of env "Some t" ?s0]
  have rc': "recall env (Some t) (?s0\<lparr>stop_event := True\<rparr>) = (r1, s1\<lparr>stop_event := True\<rparr>)"
    by simp
  show ?case
  proof (cases r1)
    case (Some e)
    with rc rc' show ?thesis by (simp add: flag_out)
  next
    case None
    obtain y brk st2 s2 where d: "dispatch env output_interpreters (result @ t) s1 = ((y, brk, st2), s2)"
      by (metis prod.exhaust)
    with dispatch_flag [of env output_interpreters "result @ t" s1]
    have d': "dispatch env output_interpreters (result @ t) (s1\<lparr>stop_event := True\<rparr>)
        = ((y, brk, st2), s2\<lparr>stop_event := True\<rparr>)"
      by simp
    show ?thesis
    proof (cases "y = None \<and> \<not> brk")
      case False
      with rc rc' None d d' show ?thesis
        by (cases y) (auto simp add: flag_out)
    next
      case True
      from "4.IH" [OF rc [symmetric] None d [symmetric] refl _ refl] True
      have "stream env its (result @ t) (s2\<lparr>stop_event := True\<rparr>)
          = (fst (stream env its (result @ t) s2),
             (snd (stream env its (result @ t) s2))\<lparr>stop_event := True\<rparr>)"
        by simp
      with rc rc' None d d' True show ?thesis
        by (simp add: flag_out)
    qed
  qed
qed

lemma try_suite_flag:
  "try_suite env messages node answer_node (s\<lparr>stop_event := True\<rparr>)
     = (fst (try_suite env messages node answer_node s),
        (snd (try_suite env messages node answer_node s))\<lparr>stop_event := True\<rparr>)"
proof -
  obtain l w where l: "llm_inference env messages (world s) = (l, w)"
    by (metis prod.exhaust)
  show ?thesis
  proof (cases l)
    case (Inl e)
    with l show ?thesis
      by (simp add: try_suite_def flag_out)
  next
    case (Inr response)
    have u: "(s\<lparr>stop_event := True\<rparr>)\<lparr>world := w\<rparr> = (s\<lparr>world := w\<rparr>)\<lparr>stop_event := True\<rparr>"
      by simp
    obtain y res1 st1 s1 where str: "stream env response [] (s\<lparr>world := w\<rparr>) = ((y, res1, st1), s1)"
      by (metis prod.exhaust)
    with stream_flag [of env response "[]" "s\<lparr>world := w\<rparr>"]
    have str': "stream env response [] ((s\<lparr>world := w\<rparr>)\<lparr>stop_event := True\<rparr>)
        = ((y, res1, st1), s1\<lparr>stop_event := True\<rparr>)"
      by simp
    show ?thesis
    proof (cases y)
      case (Some e)
      with l Inr str str' show ?thesis
        by (simp add: try_suite_def flag_out)
    next
      case None
      obtain rr s2 where rc: "recall env None s1 = (rr, s2)"
        by (metis prod.exhaust)
      with recall_flag [of env None s1]
      have rc': "recall env None (s1\<lparr>stop_event := True\<rparr>) = (rr, s2\<lparr>stop_event := True\<rparr>)"
        by simp
      from l Inr str str' None rc rc' show ?thesis
        by (cases rr) (simp_all add: try_suite_def flag_out)
    qed
  qed
qed

lemma except_suite_flag:
  "except_suite env node answer_node result is_stop (s\<lparr>stop_event := True\<rparr>)
     = (fst (except_suite env node answer_node result is_stop s),
        (snd (except_suite env node answer_node result is_stop s))\<lparr>stop_event := True\<rparr>)"
proof -
  obtain rr s1 where rc: "recall env (Some result) s = (rr, s1)"
    by (metis prod.exhaust)
  with recall_flag [of env "Some result" s]
  have "recall env (Some result) (s\<lparr>stop_event := True\<rparr>) = (rr, s1\<lparr>stop_event := True\<rparr>)"
    by simp
  with rc show ?thesis
    by (cases rr) (simp_all add: except_suite_def)
qed

lemma begin_turn_flag:
  "begin_turn env node (s\<lparr>stop_event := True\<rparr>)
     = (fst (begin_turn env node s), (snd (begin_turn env node s))\<lparr>stop_event := True\<rparr>)"
proof -
  let ?s = "s\<lparr>trace := trace s @ [Execute (node_id node)]\<rparr>"
  obtain p w where p: "system_prompt env (world s) = (p, w)"
    by (metis prod.exhaust)
  show ?thesis
  proof (cases p)
    case (Inl e)
    with p show ?thesis
      by (simp add: begin_turn_def Let_def flag_out)
  next
    case (Inr prompt)
    let ?added = "add_node_after (memory s) node (new_MemoryNode (S ''system'') (S ''answer'') [])"
    let ?s1 = "?s\<lparr>world := w, memory := set_current_node (snd ?added) (fst ?added)\<rparr>"
    let ?h = "Some (S ''\<newline>['' @ MemoryNode.content node @ S '']\<newline>'')"
    obtain rr s2 where rc: "recall env ?h ?s1 = (rr, s2)"
      by (metis prod.exhaust)
    with recall_flag [of env ?h ?s1]
    have rc': "recall env ?h (?s1\<lparr>stop_event := True\<rparr>) = (rr, s2\<lparr>stop_event := True\<rparr>)"
      by simp
    have u: "(s\<lparr>stop_event := True, trace := trace s @ [Execute (node_id node)], world := w,
          memory := set_current_node (snd ?added) (fst ?added)\<rparr>) = ?s1\<lparr>stop_event := True\<rparr>"
      by simp
    from p Inr rc rc' show ?thesis
      by (cases rr) (simp_all add: begin_turn_def Let_def flag_out)
  qed
qed

lemma execute_node_flag:
  "execute_node env node (s\<lparr>stop_event := True\<rparr>)
     = (fst (execute_node env node s), (snd (execute_node env node s))\<lparr>stop_event := True\<rparr>)"
proof -
  obtain b s2 where b: "begin_turn env node s = (b, s2)"
    by (metis prod.exhaust)
  with begin_turn_flag [of env node s]
  have b': "begin_turn env node (s\<lparr>stop_event := True\<rparr>) = (b, s2\<lparr>stop_event := True\<rparr>)"
    by simp
  show ?thesis
  proof (cases b)
    case (Inl e)
    with b b' show ?thesis
      by (simp add: execute_node_def)
  next
    case (Inr ma)
    obtain messages answer_node where ma: "ma = (messages, answer_node)"
      by (metis prod.exhaust)
    obtain x res st s3 where t: "try_suite env messages node answer_node s2 = ((x, res, st), s3)"
      by (metis prod.exhaust)
    with try_suite_flag [of env messages node answer_node s2]
    have t': "try_suite env messages node answer_node (s2\<lparr>stop_event := True\<rparr>)
        = ((x, res, st), s3\<lparr>stop_event := True\<rparr>)"
      by simp
    show ?thesis
    proof (cases x)
      case None
      with b b' Inr ma t t' show ?thesis
        by (simp add: execute_node_def)
    next
      case (Some e)
      with b b' Inr ma t t' except_suite_flag [of env node answer_node res st s3] show ?thesis
        by (simp add: execute_node_def)
    qed
  qed
qed

lemma run_loop_cancelled:
  assumes "execute_node env node s = (Inr (i, False), s1)" and "stop_event s1"
  shows "\<exists>s2. run_loop (Suc k) env (Some node) s = Some (Inr None, s2)
           \<and> trace s2 = trace s1 @ [Poll True]"
proof -
  obtain stopped w where y: "yield env (world s1) = (stopped, w)"
    by (metis prod.exhaust)
  with assms show ?thesis
    by (simp add: Let_def)
qed

subsection \<open>Where an input node is put\<close>

lemma find_split:
  "find P xs = Some x \<Longrightarrow> \<exists>pre post. xs = pre @ x # post \<and> (\<forall>y\<in>set pre. \<not> P y) \<and> P x"
proof (induction xs)
  case Nil
  then show ?case by simp
next
  case (Cons a xs)
  show ?case
  proof (cases "P a")
    case True
    with Cons.prems have "a # xs = [] @ x # xs \<and> (\<forall>y\<in>set []. \<not> P y) \<and> P x"
      by simp
    then show ?thesis by blast
  next
    case False
    with Cons obtain pre post where "xs = pre @ x # post" "\<forall>y\<in>set pre. \<not> P y" "P x"
      by auto
    with False have "a # xs = (a # pre) @ x # post \<and> (\<forall>y\<in>set (a # pre). \<not> P y) \<and> P x"
      by simp
    then show ?thesis by blast
  qed
qed

lemma insert_after_split:
  "\<forall>y\<in>set pre. node_id y \<noteq> r \<Longrightarrow> node_id x = r \<Longrightarrow>
   insert_after r n (pre @ x # post) = pre @ x # n # post"
  by (induction pre) simp_all

lemma insert_node_after:
  assumes g: "get_node m j = Some for_node" and d: "distinct (map node_id (nodes m))"
  shows "\<exists>node' m' pre post.
           insert_node m inp (Some j) = Inr (node', m')
         \<and> nodes m = pre @ for_node # post
         \<and> nodes m' = pre @ for_node\<lparr>status := Success\<rparr> # node' # post
         \<and> node' = \<lparr>node_id = fresh_id m, role = S ''user'', action = S ''input'',
                     content = inp, status = Pending, parent = Some j\<rparr>"
proof -
  from find_split [OF g [unfolded get_node_def]] obtain pre post where
    s: "nodes m = pre @ for_node # post" and p: "\<forall>y\<in>set pre. node_id y \<noteq> j"
    and j: "node_id for_node = j"
    by blast
  let ?n = "\<lparr>node_id = fresh_id m, role = S ''user'', action = S ''input'',
              content = inp, status = Pending, parent = Some j\<rparr>"
  from s d have "node_id for_node \<notin> node_id ` set post"
    by simp
  with j have q: "\<forall>y\<in>set post. node_id y \<noteq> j"
    by blast
  note p' = p
  have "for_node \<in> set (nodes m)"
    using s by simp
  from fresh_id_gt [OF this] j have f: "fresh_id m \<noteq> j"
    by simp
  have i: "insert_after j ?n (nodes m) = pre @ for_node # ?n # post"
    using insert_after_split [OF p j] s by simp
  have mp: "map (\<lambda>x. if node_id x = j then x\<lparr>status := Success\<rparr> else x) pre = pre"
    using p' by (simp add: map_idI)
  have mq: "map (\<lambda>x. if node_id x = j then x\<lparr>status := Success\<rparr> else x) post = post"
    using q by (simp add: map_idI)
  have "insert_node m inp (Some j)
      = Inr (?n, success_node (snd (add_node_after m for_node (new_MemoryNode (S ''user'') (S ''input'') inp))) for_node)"
    using g j by (simp add: insert_node_def Let_def add_node_after_def new_MemoryNode_def)
  moreover have "nodes (success_node (snd (add_node_after m for_node (new_MemoryNode (S ''user'') (S ''input'') inp))) for_node)
      = pre @ for_node\<lparr>status := Success\<rparr> # ?n # post"
    using i j f mp mq by (simp add: success_node_def add_node_after_def Let_def new_MemoryNode_def)
  ultimately show ?thesis
    using s by blast
qed

lemma insert_node_new:
  "insert_node m inp None
     = Inr (\<lparr>node_id = fresh_id m, role = S ''user'', action = S ''input'', content = inp,
              status = Pending, parent = current_node m\<rparr>,
            m\<lparr>nodes := nodes m @ [\<lparr>node_id = fresh_id m, role = S ''user'', action = S ''input'',
                 content = inp, status = Pending, parent = current_node m\<rparr>],
              next_id := Suc (fresh_id m)\<rparr>)"
  by (simp add: insert_node_def Let_def add_node_def new_MemoryNode_def)

subsection \<open>Directives that list an unknown key\<close>

text \<open>
  Claim C5, as amended. A key that a hide directive lists and that names no concept is
  created as an empty concept with \<open>show = False\<close>. A show directive creates no concept:
  a key that names no concept before \<^verbatim>\<open>_parse_show\<close> names none after it. The show pass
  returns and does not raise (the hide pass has no statement that raises).
\<close>

theorem unknown_key_directive:
  "(\<forall>k. k \<in> set (fst (get_hide_keys c)) \<and> map_of (concepts sm) k = None \<longrightarrow>
        map_of (concepts (snd (parse_hide sm c))) k = Some (new_node k [] False))
   \<and> (\<forall>k. map_of (concepts sm) k = None \<longrightarrow>
          map_of (concepts (snd (parse_show sm c))) k = None)
   \<and> (\<exists>r. fst (parse_show sm c) = Inr r)"
  using parse_show_returns [of sm c]
  by (simp add: concepts_parse_hide concepts_parse_show map_of_fold_hide_key
      map_of_fold_show_key)

text \<open>
  The hide directive that lists \<open>foo\<close> in a fresh store creates the hidden empty concept
  \<open>foo\<close>; the show directive that lists it creates nothing.
\<close>

theorem unknown_key_directive_witness:
  "S ''foo'' \<in> set (fst (get_hide_keys (S ''```hide\<newline>foo\<newline>```'')))
   \<and> map_of (concepts (init [])) (S ''foo'') = None
   \<and> map_of (concepts (snd (parse_hide (init []) (S ''```hide\<newline>foo\<newline>```'')))) (S ''foo'')
       = Some (new_node (S ''foo'') [] False)
   \<and> map_of (concepts (snd (parse_show (init []) (S ''```show\<newline>foo\<newline>```'')))) (S ''foo'')
       = None"
proof -
  have a: "S ''foo'' \<in> set (fst (get_hide_keys (S ''```hide\<newline>foo\<newline>```'')))"
    by (simp add: get_hide_keys_def str_defs)
  have b: "map_of (concepts (init [])) (S ''foo'') = None"
    by (simp add: init_def new_node_def)
  from unknown_key_directive [of "S ''```hide\<newline>foo\<newline>```''" "init []"] a b
  have c: "map_of (concepts (snd (parse_hide (init []) (S ''```hide\<newline>foo\<newline>```'')))) (S ''foo'')
       = Some (new_node (S ''foo'') [] False)"
    by blast
  from unknown_key_directive [of "S ''```show\<newline>foo\<newline>```''" "init []"] b
  have d: "map_of (concepts (snd (parse_show (init []) (S ''```show\<newline>foo\<newline>```'')))) (S ''foo'')
       = None"
    by blast
  from a b c d show ?thesis by blast
qed

text \<open>
  Claim C5 as stated fails for the show directive: in a fresh store the directive that
  lists the unknown key \<open>foo\<close> is parsed, and no concept \<open>foo\<close> exists afterwards.
\<close>

theorem show_unknown_key_counterexample:
  "S ''foo'' \<in> set (fst (get_show_keys (S ''```show\<newline>foo\<newline>```'')))
   \<and> map_of (concepts (init [])) (S ''foo'') = None
   \<and> fst (parse_show (init []) (S ''```show\<newline>foo\<newline>```'')) = Inr (True, [])
   \<and> map_of (concepts (snd (parse_show (init []) (S ''```show\<newline>foo\<newline>```'')))) (S ''foo'') = None"
  by (simp add: parse_show_def get_show_keys_def str_defs init_def show_key_def new_node_def)

subsection \<open>The concept ROOT\<close>

text \<open>
  Claim C4, as amended. A store initialised from an empty table holds the concept \<open>ROOT\<close>,
  hidden and with empty content. No pass removes it: the hide pass leaves it as it is or
  sets its show flag to \<open>False\<close>, the generic-block pass leaves it as it is or, on a
  \<open><<ROOT>>\<close> block, replaces its content by the body of the block (the show flag stays),
  a show pass whose directive does not list \<open>ROOT\<close> leaves it as it is, and after every
  show pass and every \<^verbatim>\<open>add_content\<close> that returns or raises the store still holds it.
  While it is hidden, \<^verbatim>\<open>get_show_memory\<close> is what it would be without it.
\<close>

theorem root_concept:
  "root_node (init []) = Some (new_node (S ''ROOT'') [] False)
   \<and> (root_node sm = Some n \<longrightarrow>
        root_node (snd (parse_hide sm c))
          = Some (if S ''ROOT'' \<in> set (fst (get_hide_keys c)) then n\<lparr>show_flag := False\<rparr> else n)
        \<and> root_node (snd (parse_block sm c))
          = Some (case map_of (get_nodes c) (S ''ROOT'') of None \<Rightarrow> n | Some v \<Rightarrow> n\<lparr>content := v\<rparr>)
        \<and> (S ''ROOT'' \<notin> set (fst (get_show_keys c)) \<longrightarrow> root_node (snd (parse_show sm c)) = Some n)
        \<and> root_node (snd (parse_show sm c)) \<noteq> None)
   \<and> (root_node sm \<noteq> None \<and> add_content k llm render rc sm input role' w = Some (r, sm', w')
        \<longrightarrow> root_node sm' \<noteq> None)
   \<and> (distinct (map fst (concepts sm)) \<and> root_node sm = Some n \<and> \<not> show_flag n \<longrightarrow>
        get_show_memory sm
          = get_show_memory (sm\<lparr>concepts := filter (\<lambda>p. fst p \<noteq> S ''ROOT'') (concepts sm)\<rparr>))"
proof -
  have a: "root_node sm = Some n \<Longrightarrow>
        root_node (snd (parse_hide sm c))
          = Some (if S ''ROOT'' \<in> set (fst (get_hide_keys c)) then n\<lparr>show_flag := False\<rparr> else n)"
    by (simp add: root_node_def concepts_parse_hide map_of_fold_hide_key)
  have b: "root_node sm = Some n \<Longrightarrow> root_node (snd (parse_block sm c))
          = Some (case map_of (get_nodes c) (S ''ROOT'') of None \<Rightarrow> n | Some v \<Rightarrow> n\<lparr>content := v\<rparr>)"
    by (simp add: root_node_def map_of_parse_block split: option.splits)
  have c: "root_node sm = Some n \<Longrightarrow> S ''ROOT'' \<notin> set (fst (get_show_keys c)) \<Longrightarrow>
        root_node (snd (parse_show sm c)) = Some n"
    by (simp add: root_node_def concepts_parse_show map_of_fold_show_key)
  have d: "root_node sm = Some n \<Longrightarrow> root_node (snd (parse_show sm c)) \<noteq> None"
    using parse_show_keeps [of sm "S ''ROOT''" c] by (simp add: root_node_def)
  have e: "root_node sm \<noteq> None \<Longrightarrow> add_content k llm render rc sm input role' w = Some (r, sm', w')
        \<Longrightarrow> root_node sm' \<noteq> None"
    unfolding root_node_def by (rule add_content_keeps)
  from a b c d e root_node_init get_show_memory_without_root [of sm n]
  show ?thesis by blast
qed

text \<open>The conjuncts of the theorem in a fresh store, each hypothesis discharged.\<close>

theorem root_concept_witness:
  "root_node (init []) = Some (new_node (S ''ROOT'') [] False)
   \<and> S ''ROOT'' \<in> set (fst (get_hide_keys (S ''```hide\<newline>ROOT\<newline>```'')))
   \<and> root_node (snd (parse_hide (init []) (S ''```hide\<newline>ROOT\<newline>```'')))
        = Some (new_node (S ''ROOT'') [] False)
   \<and> root_node (snd (parse_block (init []) (S ''<<ROOT>>\<newline>x'')))
        = Some (new_node (S ''ROOT'') (S ''x'') False)
   \<and> S ''ROOT'' \<notin> set (fst (get_show_keys (S ''```show\<newline>foo\<newline>```'')))
   \<and> root_node (snd (parse_show (init []) (S ''```show\<newline>foo\<newline>```'')))
        = Some (new_node (S ''ROOT'') [] False)
   \<and> add_content (Suc 0) (\<lambda>msgs w. (Inr [Token (S ''x'')], w)) (\<lambda>nodes' new_text. new_text) None
         (init []) (S ''hi'') (S ''user'') ()
        = Some (Inr (S ''\<newline>''), init [], ())
   \<and> distinct (map fst (concepts (init [])))
   \<and> \<not> show_flag (new_node (S ''ROOT'') [] False)
   \<and> get_show_memory (init [])
        = get_show_memory ((init [])\<lparr>concepts := filter (\<lambda>p. fst p \<noteq> S ''ROOT'') (concepts (init []))\<rparr>)"
proof -
  let ?n = "new_node (S ''ROOT'') [] False"
  let ?llm = "\<lambda>(msgs :: (pystr \<times> pystr) list) (w :: unit). (Inr [Token (S ''x'')] :: exn + item list, w)"
  let ?render = "\<lambda>(nodes' :: pystr) (new_text :: pystr). new_text"
  have r: "root_node (init []) = Some ?n"
    by (simp add: root_node_def init_def)
  have hk: "S ''ROOT'' \<in> set (fst (get_hide_keys (S ''```hide\<newline>ROOT\<newline>```'')))"
    by (simp add: get_hide_keys_def str_defs)
  have sk: "S ''ROOT'' \<notin> set (fst (get_show_keys (S ''```show\<newline>foo\<newline>```'')))"
    by (simp add: get_show_keys_def str_defs)
  have gn: "map_of (get_nodes (S ''<<ROOT>>\<newline>x'')) (S ''ROOT'') = Some (S ''x'')"
    by (simp add: get_nodes_def is_title_def nodes_close_def dict_get_def str_defs)
  have ac: "add_content (Suc 0) ?llm ?render None (init []) (S ''hi'') (S ''user'') ()
        = Some (Inr (S ''\<newline>''), init [], ())"
    by (simp add: sm_defs str_defs Let_def)
  have di: "distinct (map fst (concepts (init [])))"
    by (simp add: init_def)
  have ns: "\<not> show_flag ?n"
    by (simp add: new_node_def)
  note t1 = root_concept [of "init []" ?n "S ''```hide\<newline>ROOT\<newline>```''" "Suc 0" ?llm ?render
      None "S ''hi''" "S ''user''" "()" "Inr (S ''\<newline>'')" "init []" "()"]
  note t2 = root_concept [of "init []" ?n "S ''<<ROOT>>\<newline>x''" "Suc 0" ?llm ?render
      None "S ''hi''" "S ''user''" "()" "Inr (S ''\<newline>'')" "init []" "()"]
  note t3 = root_concept [of "init []" ?n "S ''```show\<newline>foo\<newline>```''" "Suc 0" ?llm ?render
      None "S ''hi''" "S ''user''" "()" "Inr (S ''\<newline>'')" "init []" "()"]
  from t1 r hk have c1: "root_node (snd (parse_hide (init []) (S ''```hide\<newline>ROOT\<newline>```''))) = Some ?n"
    by (simp add: new_node_def)
  from t2 r gn have c2: "root_node (snd (parse_block (init []) (S ''<<ROOT>>\<newline>x'')))
        = Some (new_node (S ''ROOT'') (S ''x'') False)"
    by (simp add: new_node_def)
  from t3 r sk have c3: "root_node (snd (parse_show (init []) (S ''```show\<newline>foo\<newline>```''))) = Some ?n"
    by simp
  from t1 r di ns have c4: "get_show_memory (init [])
        = get_show_memory ((init [])\<lparr>concepts := filter (\<lambda>p. fst p \<noteq> S ''ROOT'') (concepts (init []))\<rparr>)"
    by simp
  from r hk c1 c2 sk c3 ac di ns c4 show ?thesis
    by simp
qed

text \<open>
  Claim C4 as stated fails. In a fresh store, a response that holds a show directive
  listing \<open>ROOT\<close>, followed by a response \<open>x\<close>, leaves \<open>ROOT\<close> with its show flag
  \<open>True\<close>, and \<^verbatim>\<open>get_show_memory\<close> renders it. And a response of plain text
  (\<open>leftover\<close>) leaves the content of \<open>ROOT\<close> empty: nothing is accumulated in it.
\<close>

theorem root_shown_counterexample:
  "map_option (\<lambda>(r, sm', w'). (r, root_node sm', get_show_memory sm'))
     (add_content (Suc (Suc 0))
        (\<lambda>msgs w. if w = 0 then (Inr [Token (S ''```show\<newline>ROOT\<newline>```'')], Suc w)
                   else (Inr [Token (S ''x'')], Suc w))
        (\<lambda>nodes' new_text. new_text) None (init []) (S ''hi'') (S ''user'') (0::nat))
   = Some (Inr (S ''<<ROOT>>\<newline>x\<newline>x''),
           Some (new_node (S ''ROOT'') (S ''x'') True), S ''<<ROOT>>\<newline>x'')
   \<and> map_option (\<lambda>(r, sm', w'). (r, root_node sm'))
     (add_content (Suc 0) (\<lambda>msgs w. (Inr [Token (S ''leftover'')], w))
        (\<lambda>nodes' new_text. new_text) None (init []) (S ''hi'') (S ''user'') ())
   = Some (Inr (S ''\<newline>''), Some (new_node (S ''ROOT'') [] False))"
  by (simp add: sm_defs str_defs Let_def)

subsection \<open>The generic-block pass\<close>

text \<open>
  Claim C6, as amended. \<^verbatim>\<open>_parse_block\<close> returns \<open>True\<close> and the text as it got it, and
  upserts every pair of \<^verbatim>\<open>get_nodes\<close>: a title that names no concept creates one with
  \<open>show = False\<close> and the body as content, a title that names a concept has the content
  of that concept replaced by the body, and every other concept stays as it is.
  For a text with no line before its first title line, the titles are those of the title
  lines, and the body of a title is made of the lines that follow its title lines up to the
  next title line or the end of the text, each line stripped of the white space around it,
  blank lines left out, joined by newlines (so the lines are not kept verbatim).
\<close>

theorem generic_block_upsert:
  "fst (parse_block sm c) = (True, c)
   \<and> map_of (concepts (snd (parse_block sm c))) k =
       (case map_of (get_nodes c) k of
          None \<Rightarrow> map_of (concepts sm) k
        | Some v \<Rightarrow> Some (case map_of (concepts sm) k of
                           Some n \<Rightarrow> n\<lparr>content := v\<rparr>
                         | None \<Rightarrow> new_node k v False))
   \<and> (takeWhile (\<lambda>x. \<not> is_title x) (text_lines c) = [] \<longrightarrow>
        map_of (get_nodes c) k =
          (if k \<in> fst ` set (blocks_of (text_lines c))
           then Some (body_of k (text_lines c)) else None))"
  using get_nodes_blocks [of c k]
  by (simp add: map_of_parse_block) (simp add: parse_block_def)

text \<open>
  A text of three blocks, two of them of the title \<open>a\<close>, with indented lines and a blank
  line: its lines, the body of \<open>a\<close>, and the concept \<open>a\<close> the pass creates in a fresh store.
\<close>

theorem generic_block_upsert_witness:
  "takeWhile (\<lambda>x. \<not> is_title x)
      (text_lines (S ''<<a>>\<newline>  x\<newline>\<newline>  y\<newline><<b>>\<newline><<a>>\<newline>z'')) = []
   \<and> S ''a'' \<in> fst ` set (blocks_of
        (text_lines (S ''<<a>>\<newline>  x\<newline>\<newline>  y\<newline><<b>>\<newline><<a>>\<newline>z'')))
   \<and> body_of (S ''a'')
        (text_lines (S ''<<a>>\<newline>  x\<newline>\<newline>  y\<newline><<b>>\<newline><<a>>\<newline>z''))
       = S ''x\<newline>y\<newline>z''
   \<and> map_of (get_nodes (S ''<<a>>\<newline>  x\<newline>\<newline>  y\<newline><<b>>\<newline><<a>>\<newline>z'')) (S ''a'')
       = Some (S ''x\<newline>y\<newline>z'')
   \<and> map_of (concepts (snd (parse_block (init [])
          (S ''<<a>>\<newline>  x\<newline>\<newline>  y\<newline><<b>>\<newline><<a>>\<newline>z'')))) (S ''a'')
       = Some (new_node (S ''a'') (S ''x\<newline>y\<newline>z'') False)"
proof -
  let ?c = "S ''<<a>>\<newline>  x\<newline>\<newline>  y\<newline><<b>>\<newline><<a>>\<newline>z''"
  have l: "text_lines ?c = [S ''<<a>>'', S ''x'', S ''y'', S ''<<b>>'', S ''<<a>>'', S ''z'']"
    by (simp add: text_lines_def str_defs)
  have h: "takeWhile (\<lambda>x. \<not> is_title x) (text_lines ?c) = []"
    unfolding l by (simp add: is_title_def str_defs)
  have b: "blocks_of (text_lines ?c) = [(S ''a'', [S ''x'', S ''y'']), (S ''b'', []), (S ''a'', [S ''z''])]"
    unfolding l by (simp add: is_title_def str_defs)
  have m: "S ''a'' \<in> fst ` set (blocks_of (text_lines ?c))"
    unfolding b by simp
  have v: "body_of (S ''a'') (text_lines ?c) = S ''x\<newline>y\<newline>z''"
    unfolding body_of_def b by simp
  have e: "map_of (concepts (init [])) (S ''a'') = None"
    by (simp add: init_def)
  from generic_block_upsert [of "init []" ?c "S ''a''"] h m v
  have g: "map_of (get_nodes ?c) (S ''a'') = Some (S ''x\<newline>y\<newline>z'')"
    by simp
  from generic_block_upsert [of "init []" ?c "S ''a''"] g e
  have "map_of (concepts (snd (parse_block (init []) ?c))) (S ''a'')
       = Some (new_node (S ''a'') (S ''x\<newline>y\<newline>z'') False)"
    by simp
  with h m v g show ?thesis
    by simp
qed

text \<open>
  Claim C6 as stated fails: the lines of a body are not accumulated verbatim. The block
  \<open>a\<close> with the lines \<open>  x\<close>, a blank line and \<open>  y\<close> gets the content \<open>x\<close>, newline,
  \<open>y\<close>, which is not its text stripped as a whole.
\<close>

theorem body_not_verbatim_counterexample:
  "map_option content
     (map_of (concepts (snd (parse_block (init []) (S ''<<a>>\<newline>  x\<newline>\<newline>  y''))))
        (S ''a''))
     = Some (S ''x\<newline>y'')
   \<and> S ''x\<newline>y'' \<noteq> strip (S ''  x\<newline>\<newline>  y'')"
  by (simp add: sm_defs str_defs Let_def)

subsection \<open>The first interpreter that matches\<close>

text \<open>
  Claim C1. Let the text accumulated be matched by the patterns of two interpreters or
  more, \<open>i\<close> the first of them in the order of \<open>output_interpreters\<close> (python, bash,
  applescript, file, ask) and \<open>j\<close> another one. Then the loop over the interpreters calls
  the \<^verbatim>\<open>parse\<close> of \<open>i\<close> and of no other interpreter, and the step of the loop over the
  response that reads the token completing that text takes this one step from the response
  and no further one: what follows in the response does not matter, and \<open>j\<close> is not called.
  When the callback returns on that token, the loop over the response calls the
  \<^verbatim>\<open>parse\<close> of \<open>i\<close>, once, and its events are exactly: the token is taken, the
  callback is called with it, \<open>i\<close> parses the text, and the callback is called with the
  output if \<open>i\<close> returned one. When the callback raises on that token, the loop over the
  interpreters is not reached: the events are the first two.
\<close>

theorem first_match_wins:
  assumes "find (\<lambda>k. match_template env k buf) output_interpreters = Some i"
    and "match_template env j buf" and "j \<noteq> i"
  shows "parsed_by (new_events s (snd (dispatch env output_interpreters buf s))) = [i]
       \<and> j \<notin> set (parsed_by (new_events s (snd (dispatch env output_interpreters buf s))))
       \<and> (buf = result @ t \<longrightarrow>
            stream env (Token t # rest) result s = stream env [Token t] result s
          \<and> pulls (new_events s (snd (stream env (Token t # rest) result s))) = 1
          \<and> j \<notin> set (parsed_by (new_events s (snd (stream env (Token t # rest) result s))))
          \<and> (fst (fst (output_recall env (Some t) (world s))) = None \<longrightarrow>
               parsed_by (new_events s (snd (stream env (Token t # rest) result s))) = [i]
             \<and> new_events s (snd (stream env (Token t # rest) result s))
                 = Pull (Token t) # Recall (Some t)
                   # Parse i buf (fst (parse env i buf (snd (output_recall env (Some t) (world s)))))
                   # (case fst (parse env i buf (snd (output_recall env (Some t) (world s)))) of
                        Inl e \<Rightarrow> []
                      | Inr r \<Rightarrow> [Recall (Some (S ''\<newline>'' @ fst r @ S ''\<newline>''))]))
          \<and> (fst (fst (output_recall env (Some t) (world s))) \<noteq> None \<longrightarrow>
               new_events s (snd (stream env (Token t # rest) result s))
                 = [Pull (Token t), Recall (Some t)]))"
proof -
  have a: "parsed_by (new_events s (snd (dispatch env output_interpreters buf s))) = [i]"
    using dispatch_first_match [OF assms(1), of s]
    by (auto simp add: new_events_def split: sum.splits)
  have b: "stream env (Token t # rest) result s = stream env [Token t] result s"
    if "buf = result @ t"
  proof -
    from that assms(1)
    have "find (\<lambda>k. match_template env k (result @ t)) output_interpreters = Some i"
      by simp
    then show ?thesis
      by (rule stream_match_rest)
  qed
  have c: "pulls (new_events s (snd (stream env (Token t # rest) result s))) = 1
       \<and> j \<notin> set (parsed_by (new_events s (snd (stream env (Token t # rest) result s))))"
    if "buf = result @ t"
  proof -
    from that assms(1) stream_match_trace [of env result t i rest s]
    obtain evs where "trace (snd (stream env (Token t # rest) result s))
             = trace s @ Pull (Token t) # Recall (Some t) # evs"
      and "pulls evs = 0" and "set (parsed_by evs) \<subseteq> {i}"
      by auto
    with assms(3) show ?thesis
      by (auto simp add: new_events_def)
  qed
  have d: "new_events s (snd (stream env (Token t # rest) result s))
                 = Pull (Token t) # Recall (Some t)
                   # Parse i buf (fst (parse env i buf (snd (output_recall env (Some t) (world s)))))
                   # (case fst (parse env i buf (snd (output_recall env (Some t) (world s)))) of
                        Inl e \<Rightarrow> []
                      | Inr r \<Rightarrow> [Recall (Some (S ''\<newline>'' @ fst r @ S ''\<newline>''))])"
    if "buf = result @ t" and "fst (fst (output_recall env (Some t) (world s))) = None"
    using stream_match_events [of env result t i s rest] assms(1) that by simp
  have e: "parsed_by (new_events s (snd (stream env (Token t # rest) result s))) = [i]"
    if "buf = result @ t" and "fst (fst (output_recall env (Some t) (world s))) = None"
    using d [OF that] by (simp split: sum.splits)
  have a': "j \<notin> set (parsed_by (new_events s (snd (dispatch env output_interpreters buf s))))"
    using a assms(3) by simp
  have g: "new_events s (snd (stream env (Token t # rest) result s))
             = [Pull (Token t), Recall (Some t)]"
    if "fst (fst (output_recall env (Some t) (world s))) \<noteq> None"
    using that by (rule stream_callback_raises)
  from a a' b c d e g show ?thesis
    by blast
qed

text \<open>
  The python and the bash interpreter both match the text \<open>ab\<close>, completed by the token
  \<open>b\<close>: python is called, bash is not, and the token \<open>c\<close> that follows is not read. With
  a callback that raises, no interpreter is called.
\<close>

theorem first_match_wins_witness:
  "find (\<lambda>k. match_template (script_env [] [bash_interpreter, python_interpreter] False returns) k (S ''ab''))
      output_interpreters = Some python_interpreter
   \<and> match_template (script_env [] [bash_interpreter, python_interpreter] False returns) bash_interpreter (S ''ab'')
   \<and> bash_interpreter \<noteq> python_interpreter
   \<and> fst (fst (output_recall (script_env [] [bash_interpreter, python_interpreter] False returns)
        (Some (S ''b'')) (world fresh_agent))) = None
   \<and> parsed_by (new_events fresh_agent
        (snd (dispatch (script_env [] [bash_interpreter, python_interpreter] False returns)
           output_interpreters (S ''ab'') fresh_agent))) = [python_interpreter]
   \<and> stream (script_env [] [bash_interpreter, python_interpreter] False returns)
        [Token (S ''b''), Token (S ''c'')] (S ''a'') fresh_agent
      = stream (script_env [] [bash_interpreter, python_interpreter] False returns)
        [Token (S ''b'')] (S ''a'') fresh_agent
   \<and> pulls (new_events fresh_agent
        (snd (stream (script_env [] [bash_interpreter, python_interpreter] False returns)
           [Token (S ''b''), Token (S ''c'')] (S ''a'') fresh_agent))) = 1
   \<and> bash_interpreter \<notin> set (parsed_by (new_events fresh_agent
        (snd (stream (script_env [] [bash_interpreter, python_interpreter] False returns)
           [Token (S ''b''), Token (S ''c'')] (S ''a'') fresh_agent))))
   \<and> parsed_by (new_events fresh_agent
        (snd (stream (script_env [] [bash_interpreter, python_interpreter] False returns)
           [Token (S ''b''), Token (S ''c'')] (S ''a'') fresh_agent))) = [python_interpreter]
   \<and> new_events fresh_agent
        (snd (stream (script_env [] [bash_interpreter, python_interpreter] False raises)
           [Token (S ''b''), Token (S ''c'')] (S ''a'') fresh_agent))
      = [Pull (Token (S ''b'')), Recall (Some (S ''b''))]"
proof -
  let ?env = "script_env [] [bash_interpreter, python_interpreter] False returns"
  let ?bad = "script_env [] [bash_interpreter, python_interpreter] False raises"
  have f: "find (\<lambda>k. match_template ?env k (S ''ab'')) output_interpreters = Some python_interpreter"
    by (simp add: script_env_def output_interpreters_def)
  have m: "match_template ?env bash_interpreter (S ''ab'')"
    by (simp add: script_env_def)
  have n: "bash_interpreter \<noteq> python_interpreter"
    by simp
  have e: "S ''ab'' = S ''a'' @ S ''b''"
    by simp
  have q: "fst (fst (output_recall ?env (Some (S ''b'')) (world fresh_agent))) = None"
    by (simp add: script_env_def returns_def)
  have f': "find (\<lambda>k. match_template ?bad k (S ''ab'')) output_interpreters = Some python_interpreter"
    by (simp add: script_env_def output_interpreters_def)
  have m': "match_template ?bad bash_interpreter (S ''ab'')"
    by (simp add: script_env_def)
  have q': "fst (fst (output_recall ?bad (Some (S ''b'')) (world fresh_agent))) \<noteq> None"
    by (simp add: script_env_def raises_def)
  from first_match_wins [OF f' m' n, of fresh_agent "S ''a''" "S ''b''" "[Token (S ''c'')]"] e q'
  have r: "new_events fresh_agent (snd (stream ?bad [Token (S ''b''), Token (S ''c'')] (S ''a'') fresh_agent))
      = [Pull (Token (S ''b'')), Recall (Some (S ''b''))]"
    by blast
  from first_match_wins [OF f m n, of fresh_agent "S ''a''" "S ''b''" "[Token (S ''c'')]"] e f m n q r
  show ?thesis
    by blast
qed
subsection \<open>An exception in the guarded part of a turn\<close>

text \<open>
  Claim C2, as amended. Let the start of the turn have added the answer node, let an
  exception caught by \<^verbatim>\<open>except Exception\<close> leave the \<^verbatim>\<open>try\<close> suite (raised by the
  call of the model, by a step of the response, by the callback or by an interpreter's
  \<^verbatim>\<open>parse\<close>), and let the callback return when it is passed the text accumulated.
  Then \<^verbatim>\<open>_execute_node\<close> returns the originating node and \<^verbatim>\<open>is_stop\<close>; the answer
  node, which was in the tree, is in it no longer; the nodes of the tree are those of before
  the turn, so the status of the originating node is what it was; the last call of the
  callback passed the text accumulated; and \<^verbatim>\<open>is_stop\<close> is the last value a
  \<^verbatim>\<open>parse\<close> returned in the turn, \<open>False\<close> if none did.
\<close>

theorem rollback_on_exception:
  assumes "begin_turn env node s = (Inr (messages, answer_node), s2)"
    and "try_suite env messages node answer_node s2 = ((Some e, result, is_stop), s3)"
    and "is_Exception e"
    and "fst (fst (output_recall env (Some result) (world s3))) = None"
  shows "\<exists>s4. execute_node env node s = (Inr (node_id node, is_stop), s4)
          \<and> get_node (memory s2) (node_id answer_node) = Some answer_node
          \<and> get_node (memory s4) (node_id answer_node) = None
          \<and> nodes (memory s4) = nodes (memory s)
          \<and> trace s4 = trace s3 @ [Recall (Some result)]
          \<and> is_stop = stop_set False (new_events s2 s3)"
proof -
  let ?new = "new_MemoryNode (S ''system'') (S ''answer'') []"
  obtain r s4' where rc: "recall env (Some result) s3 = (r, s4')"
    by (metis prod.exhaust)
  from rc assms(4) have r: "r = None"
    by (auto simp add: recall_def split: prod.splits)
  let ?s4 = "s4'\<lparr>memory := delete_node (memory s4') answer_node\<rparr>"
  from assms(1-3) rc r have ex: "execute_node env node s = (Inr (node_id node, is_stop), ?s4)"
    by (simp add: execute_node_def except_suite_def)
  from begin_turn_answer [OF assms(1)]
  have a: "answer_node = fst (add_node_after (memory s) node ?new)"
    and m2: "memory s2 = set_current_node (snd (add_node_after (memory s) node ?new)) answer_node"
    by simp_all
  from try_suite_memory [OF assms(2)] recall_memory [OF rc]
  have m4: "memory s4' = memory s2"
    by simp
  have g2: "get_node (memory s2) (node_id answer_node) = Some answer_node"
    using get_added [of "memory s" node ?new answer_node] a m2 by simp
  have g4: "get_node (memory ?s4) (node_id answer_node) = None"
    by (simp add: get_deleted)
  have n4: "nodes (memory ?s4) = nodes (memory s)"
    using delete_added [of "memory s" node ?new answer_node] a m2 m4 by simp
  have t4: "trace ?s4 = trace s3 @ [Recall (Some result)]"
    using recall_trace [OF rc] by simp
  from try_suite_stop [OF assms(2)] have st: "is_stop = stop_set False (new_events s2 s3)"
    by (auto simp add: new_events_def)
  from ex g2 g4 n4 t4 st show ?thesis
    by blast
qed

text \<open>
  The response gives the token \<open>a\<close> and then fails, no interpreter matches, the callback
  returns: the turn returns the node \<open>hi\<close> (id 0) and \<open>False\<close>, and the answer node
  (id 1) is gone.
\<close>

theorem rollback_on_exception_witness:
  "(case begin_turn (script_env [Token (S ''a''), Fails (Exception (S ''net''))] [] False returns)
           hi_node hi_agent of
      (Inr (messages, answer_node), s2) \<Rightarrow>
        (case try_suite (script_env [Token (S ''a''), Fails (Exception (S ''net''))] [] False returns)
                messages hi_node answer_node s2 of
           ((Some e, result, is_stop), s3) \<Rightarrow>
             is_Exception e
             \<and> fst (fst (output_recall
                  (script_env [Token (S ''a''), Fails (Exception (S ''net''))] [] False returns)
                  (Some result) (world s3))) = None
             \<and> fst (execute_node
                  (script_env [Token (S ''a''), Fails (Exception (S ''net''))] [] False returns)
                  hi_node hi_agent) = Inr (0, False)
             \<and> result = S ''a''
             \<and> node_id answer_node = 1
             \<and> get_node (memory s2) 1 = Some answer_node
             \<and> get_node (memory (snd (execute_node
                  (script_env [Token (S ''a''), Fails (Exception (S ''net''))] [] False returns)
                  hi_node hi_agent))) 1 = None
             \<and> nodes (memory (snd (execute_node
                  (script_env [Token (S ''a''), Fails (Exception (S ''net''))] [] False returns)
                  hi_node hi_agent))) = [hi_node]
         | ((None, result, is_stop), s3) \<Rightarrow> False)
    | (Inl e, s2) \<Rightarrow> False)"
proof -
  let ?env = "script_env [Token (S ''a''), Fails (Exception (S ''net''))] [] False returns"
  obtain messages answer_node s2 where
    b: "begin_turn ?env hi_node hi_agent = (Inr (messages, answer_node), s2)"
    by (simp add: agent_defs)
  have i: "node_id answer_node = 1"
    using b by (auto simp add: agent_defs)
  obtain s3 where t: "try_suite ?env messages hi_node answer_node s2
      = ((Some (Exception (S ''net'')), S ''a'', False), s3)"
    by (simp add: agent_defs)
  have c: "fst (fst (output_recall ?env (Some (S ''a'')) (world s3))) = None"
    by (simp add: agent_defs)
  have n: "nodes (memory hi_agent) = [hi_node]"
    by (simp add: agent_defs)
  from rollback_on_exception [OF b t _ c] i n obtain s4 where
    "execute_node ?env hi_node hi_agent = (Inr (0, False), s4)"
    "get_node (memory s2) 1 = Some answer_node"
    "get_node (memory s4) 1 = None"
    "nodes (memory s4) = [hi_node]"
    by (auto simp add: hi_node_def)
  with b t c i show ?thesis
    by simp
qed

text \<open>
  Claim C2 as stated fails where the callback raises in the handler: the response fails at
  its first step, the callback raises on the text accumulated, and \<^verbatim>\<open>_execute_node\<close>
  raises that exception with the answer node (id 1) still in the tree.
\<close>

theorem no_rollback_counterexample:
  "fst (execute_node (script_env [Fails (Exception (S ''net''))] [] False raises) hi_node hi_agent)
     = Inl (Exception (S ''callback''))
   \<and> map_option action
        (get_node (memory (snd (execute_node
           (script_env [Fails (Exception (S ''net''))] [] False raises) hi_node hi_agent))) 1)
     = Some (S ''answer'')"
  by (simp add: agent_defs)

subsection \<open>The callback and the end of a turn\<close>

text \<open>
  Claim C7, as amended. Let the part of a turn before the \<^verbatim>\<open>try\<close> suite have returned.
  Then the calls of the callback in the turn are, in this order and no others: the header
  of the plan if the node is a plan node; one call for each token taken from the response,
  in their order, these tokens being the first steps of the response and the text
  accumulated their concatenation; at most one call with the output of an interpreter,
  one for each \<^verbatim>\<open>parse\<close> that returned; the call with \<^verbatim>\<open>None\<close>; and the call of the
  handler with the text accumulated. The call with \<^verbatim>\<open>None\<close> is made once where the
  \<^verbatim>\<open>try\<close> suite completes, and the turn then returns the answer node, with no call
  after it. Where an exception leaves the \<^verbatim>\<open>try\<close> suite, the call with \<^verbatim>\<open>None\<close> is
  not made, unless it is the call that raised; the handler makes its one call if the
  exception is an \<^verbatim>\<open>Exception\<close>, and otherwise no call follows and the turn raises the
  exception. Where the part before the \<^verbatim>\<open>try\<close> suite raises, the turn raises, no token
  has been taken, and the callback has been called with the header of the plan, or not at
  all if it was the system prompt that could not be built.
\<close>

theorem callback_calls:
  "(begin_turn env node s = (Inr (messages, answer_node), s2)
    \<and> try_suite env messages node answer_node s2 = ((x, result, is_stop), s3) \<longrightarrow>
      (\<exists>r s4 fin.
        execute_node env node s = (r, s4)
        \<and> recalled (new_events s s4)
            = (if action node = S ''plan''
               then [Some (S ''\<newline>['' @ MemoryNode.content node @ S '']\<newline>'')] else [])
              @ map Some (pulled (new_events s s4)) @ outputs (new_events s s4) @ fin
              @ (case x of None \<Rightarrow> [] | Some e \<Rightarrow> if is_Exception e then [Some result] else [])
        \<and> length (outputs (new_events s s4)) \<le> 1
        \<and> result = concat (pulled (new_events s s4))
        \<and> (\<forall>response w. llm_inference env messages (world s2) = (Inr response, w) \<longrightarrow>
             map Token (pulled (new_events s s4))
               = take (length (pulled (new_events s s4))) response)
        \<and> (case x of
             None \<Rightarrow> fin = [None] \<and> r = Inr (node_id answer_node, is_stop)
           | Some e \<Rightarrow>
               (fin = [] \<or> fin = [None] \<and> (\<exists>w. fst (fst (output_recall env None w)) = Some e))
               \<and> (\<not> is_Exception e \<longrightarrow> r = Inl e))))
   \<and> (begin_turn env node s = (Inl e', s2) \<longrightarrow>
        execute_node env node s = (Inl e', s2)
        \<and> pulled (new_events s s2) = []
        \<and> outputs (new_events s s2) = []
        \<and> recalled (new_events s s2)
            = (if isl (fst (system_prompt env (world s))) then []
               else [Some (S ''\<newline>['' @ MemoryNode.content node @ S '']\<newline>'')]))"
  using execute_node_calls [of env node s messages answer_node s2 x result is_stop s3]
    begin_turn_calls [of env node s e' s2]
  by blast

text \<open>
  A turn in which the python interpreter matches after the token \<open>a\<close> (the token \<open>b\<close> is
  left in the response); a turn whose response fails after the token \<open>a\<close>; a plain answer
  for a plan node; a response that raises a \<^verbatim>\<open>BaseException\<close> after the token \<open>a\<close>; and
  a turn whose system prompt cannot be built.
\<close>

theorem callback_calls_witness:
  "recalled (new_events hi_agent (snd (execute_node
      (script_env [Token (S ''a''), Token (S ''b'')] [python_interpreter] True returns)
      hi_node hi_agent))) = [Some (S ''a''), Some (S ''\<newline>out\<newline>''), None]
   \<and> recalled (new_events hi_agent (snd (execute_node
      (script_env [Token (S ''a''), Fails (Exception (S ''net''))] [] False returns)
      hi_node hi_agent))) = [Some (S ''a''), Some (S ''a'')]
   \<and> recalled (new_events hi_agent (snd (execute_node
      (script_env [Token (S ''a''), Token (S ''b'')] [] False returns)
      (hi_node\<lparr>action := S ''plan''\<rparr>) hi_agent)))
      = [Some (S ''\<newline>[hi]\<newline>''), Some (S ''a''), Some (S ''b''), None]
   \<and> (\<exists>s4. execute_node
        (script_env [Token (S ''a''), Fails (BaseException (S ''kill''))] [] False returns)
        hi_node hi_agent = (Inl (BaseException (S ''kill'')), s4)
      \<and> recalled (new_events hi_agent s4) = [Some (S ''a'')])
   \<and> (\<exists>s2. begin_turn
        ((script_env [Token (S ''a'')] [] False returns)
           \<lparr>system_prompt := \<lambda>w. (Inl (Exception (S ''prompt'')), w)\<rparr>)
        hi_node hi_agent = (Inl (Exception (S ''prompt'')), s2)
      \<and> execute_node
        ((script_env [Token (S ''a'')] [] False returns)
           \<lparr>system_prompt := \<lambda>w. (Inl (Exception (S ''prompt'')), w)\<rparr>)
        hi_node hi_agent = (Inl (Exception (S ''prompt'')), s2)
      \<and> recalled (new_events hi_agent s2) = [])"
proof -
  let ?e1 = "script_env [Token (S ''a''), Token (S ''b'')] [python_interpreter] True returns"
  let ?e2 = "script_env [Token (S ''a''), Fails (Exception (S ''net''))] [] False returns"
  let ?e3 = "script_env [Token (S ''a''), Token (S ''b'')] [] False returns"
  let ?e4 = "script_env [Token (S ''a''), Fails (BaseException (S ''kill''))] [] False returns"
  let ?e5 = "(script_env [Token (S ''a'')] [] False returns)
           \<lparr>system_prompt := \<lambda>w. (Inl (Exception (S ''prompt'')), w)\<rparr>"
  let ?plan = "hi_node\<lparr>action := S ''plan''\<rparr>"
  have hi: "action hi_node \<noteq> S ''plan''" "action ?plan = S ''plan''"
    "MemoryNode.content ?plan = S ''hi''"
    by (simp_all add: hi_node_def)
  have c1: "recalled (new_events hi_agent (snd (execute_node ?e1 hi_node hi_agent)))
      = [Some (S ''a''), Some (S ''\<newline>out\<newline>''), None]"
  proof -
    obtain ms an s2 where b: "begin_turn ?e1 hi_node hi_agent = (Inr (ms, an), s2)"
      by (simp add: agent_defs)
    obtain s3 where t: "try_suite ?e1 ms hi_node an s2 = ((None, S ''a'', True), s3)"
      by (simp add: agent_defs)
    from callback_calls [where env = ?e1 and node = hi_node and s = hi_agent and messages = ms
        and answer_node = an and ?s2.0 = s2 and x = None and result = "S ''a''"
        and is_stop = True and ?s3.0 = s3, THEN conjunct1, THEN mp, OF conjI [OF b t]]
    obtain r s4 fin where ex: "execute_node ?e1 hi_node hi_agent = (r, s4)"
      and rc: "recalled (new_events hi_agent s4)
          = (if action hi_node = S ''plan''
             then [Some (S ''\<newline>['' @ MemoryNode.content hi_node @ S '']\<newline>'')] else [])
            @ map Some (pulled (new_events hi_agent s4)) @ outputs (new_events hi_agent s4) @ fin @ []"
      and fin: "fin = [None]"
      by auto
    from ex have s4: "s4 = snd (execute_node ?e1 hi_node hi_agent)"
      by simp
    have pu: "pulled (new_events hi_agent (snd (execute_node ?e1 hi_node hi_agent))) = [S ''a'']"
      by (simp add: agent_defs)
    have ou: "outputs (new_events hi_agent (snd (execute_node ?e1 hi_node hi_agent)))
        = [Some (S ''\<newline>out\<newline>'')]"
      by (simp add: agent_defs)
    from rc show ?thesis
      unfolding s4 pu ou fin using hi by simp
  qed
  have c2: "recalled (new_events hi_agent (snd (execute_node ?e2 hi_node hi_agent)))
      = [Some (S ''a''), Some (S ''a'')]"
  proof -
    obtain ms an s2 where b: "begin_turn ?e2 hi_node hi_agent = (Inr (ms, an), s2)"
      by (simp add: agent_defs)
    obtain s3 where t: "try_suite ?e2 ms hi_node an s2
        = ((Some (Exception (S ''net'')), S ''a'', False), s3)"
      by (simp add: agent_defs)
    have nr: "fst (fst (output_recall ?e2 None w)) \<noteq> Some (Exception (S ''net''))" for w
      by (simp add: script_env_def returns_def)
    from callback_calls [where env = ?e2 and node = hi_node and s = hi_agent and messages = ms
        and answer_node = an and ?s2.0 = s2 and x = "Some (Exception (S ''net''))"
        and result = "S ''a''" and is_stop = False and ?s3.0 = s3,
        THEN conjunct1, THEN mp, OF conjI [OF b t]] nr
    obtain r s4 fin where ex: "execute_node ?e2 hi_node hi_agent = (r, s4)"
      and rc: "recalled (new_events hi_agent s4)
          = (if action hi_node = S ''plan''
             then [Some (S ''\<newline>['' @ MemoryNode.content hi_node @ S '']\<newline>'')] else [])
            @ map Some (pulled (new_events hi_agent s4)) @ outputs (new_events hi_agent s4) @ fin
            @ [Some (S ''a'')]"
      and fin: "fin = []"
      by auto
    from ex have s4: "s4 = snd (execute_node ?e2 hi_node hi_agent)"
      by simp
    have pu: "pulled (new_events hi_agent (snd (execute_node ?e2 hi_node hi_agent))) = [S ''a'']"
      by (simp add: agent_defs)
    have ou: "outputs (new_events hi_agent (snd (execute_node ?e2 hi_node hi_agent))) = []"
      by (simp add: agent_defs)
    from rc show ?thesis
      unfolding s4 pu ou fin using hi by simp
  qed
  have c3: "recalled (new_events hi_agent (snd (execute_node ?e3 ?plan hi_agent)))
      = [Some (S ''\<newline>[hi]\<newline>''), Some (S ''a''), Some (S ''b''), None]"
  proof -
    obtain ms an s2 where b: "begin_turn ?e3 ?plan hi_agent = (Inr (ms, an), s2)"
      by (simp add: agent_defs)
    obtain s3 where t: "try_suite ?e3 ms ?plan an s2 = ((None, S ''ab'', False), s3)"
      by (simp add: agent_defs)
    from callback_calls [where env = ?e3 and node = ?plan and s = hi_agent and messages = ms
        and answer_node = an and ?s2.0 = s2 and x = None and result = "S ''ab''"
        and is_stop = False and ?s3.0 = s3, THEN conjunct1, THEN mp, OF conjI [OF b t]]
    obtain r s4 fin where ex: "execute_node ?e3 ?plan hi_agent = (r, s4)"
      and rc: "recalled (new_events hi_agent s4)
          = (if action ?plan = S ''plan''
             then [Some (S ''\<newline>['' @ MemoryNode.content ?plan @ S '']\<newline>'')] else [])
            @ map Some (pulled (new_events hi_agent s4)) @ outputs (new_events hi_agent s4) @ fin @ []"
      and fin: "fin = [None]"
      by auto
    from ex have s4: "s4 = snd (execute_node ?e3 ?plan hi_agent)"
      by simp
    have pu: "pulled (new_events hi_agent (snd (execute_node ?e3 ?plan hi_agent)))
        = [S ''a'', S ''b'']"
      by (simp add: agent_defs)
    have ou: "outputs (new_events hi_agent (snd (execute_node ?e3 ?plan hi_agent))) = []"
      by (simp add: agent_defs)
    from rc show ?thesis
      unfolding s4 pu ou fin hi by simp
  qed
  have c4: "\<exists>s4. execute_node ?e4 hi_node hi_agent = (Inl (BaseException (S ''kill'')), s4)
      \<and> recalled (new_events hi_agent s4) = [Some (S ''a'')]"
  proof -
    obtain ms an s2 where b: "begin_turn ?e4 hi_node hi_agent = (Inr (ms, an), s2)"
      by (simp add: agent_defs)
    obtain s3 where t: "try_suite ?e4 ms hi_node an s2
        = ((Some (BaseException (S ''kill'')), S ''a'', False), s3)"
      by (simp add: agent_defs)
    have nr: "fst (fst (output_recall ?e4 None w)) \<noteq> Some (BaseException (S ''kill''))" for w
      by (simp add: script_env_def returns_def)
    from callback_calls [where env = ?e4 and node = hi_node and s = hi_agent and messages = ms
        and answer_node = an and ?s2.0 = s2 and x = "Some (BaseException (S ''kill''))"
        and result = "S ''a''" and is_stop = False and ?s3.0 = s3,
        THEN conjunct1, THEN mp, OF conjI [OF b t]] nr
    obtain s4 fin where ex: "execute_node ?e4 hi_node hi_agent = (Inl (BaseException (S ''kill'')), s4)"
      and rc: "recalled (new_events hi_agent s4)
          = (if action hi_node = S ''plan''
             then [Some (S ''\<newline>['' @ MemoryNode.content hi_node @ S '']\<newline>'')] else [])
            @ map Some (pulled (new_events hi_agent s4)) @ outputs (new_events hi_agent s4) @ fin
            @ []"
      and fin: "fin = []"
      by auto
    from ex have s4: "s4 = snd (execute_node ?e4 hi_node hi_agent)"
      by simp
    have pu: "pulled (new_events hi_agent (snd (execute_node ?e4 hi_node hi_agent))) = [S ''a'']"
      by (simp add: agent_defs)
    have ou: "outputs (new_events hi_agent (snd (execute_node ?e4 hi_node hi_agent))) = []"
      by (simp add: agent_defs)
    from rc have "recalled (new_events hi_agent s4) = [Some (S ''a'')]"
      unfolding s4 pu ou fin using hi by simp
    with ex show ?thesis
      by blast
  qed
  have c5: "\<exists>s2. begin_turn ?e5 hi_node hi_agent = (Inl (Exception (S ''prompt'')), s2)
      \<and> execute_node ?e5 hi_node hi_agent = (Inl (Exception (S ''prompt'')), s2)
      \<and> recalled (new_events hi_agent s2) = []"
  proof -
    obtain s2 where b: "begin_turn ?e5 hi_node hi_agent = (Inl (Exception (S ''prompt'')), s2)"
      by (simp add: agent_defs)
    have p: "isl (fst (system_prompt ?e5 (world hi_agent)))"
      by (simp add: script_env_def)
    from callback_calls [where env = ?e5 and node = hi_node and s = hi_agent
        and e' = "Exception (S ''prompt'')" and ?s2.0 = s2, THEN conjunct2, THEN mp, OF b] p
    have "execute_node ?e5 hi_node hi_agent = (Inl (Exception (S ''prompt'')), s2)
        \<and> recalled (new_events hi_agent s2) = []"
      by simp
    with b show ?thesis
      by blast
  qed
  from c1 c2 c3 c4 c5 show ?thesis
    by (intro conjI)
qed

text \<open>
  Claim C7 as stated fails on the exception path: the response gives the token \<open>a\<close> and
  fails, the turn returns through the handler, and the callback was called with \<open>a\<close> twice
  (as a token and as the text accumulated) and never with \<^verbatim>\<open>None\<close>.
\<close>

theorem no_sentinel_counterexample:
  "fst (execute_node (script_env [Token (S ''a''), Fails (Exception (S ''net''))] [] False returns)
          hi_node hi_agent) = Inr (0, False)
   \<and> recalled (new_events hi_agent
        (snd (execute_node (script_env [Token (S ''a''), Fails (Exception (S ''net''))] [] False returns)
           hi_node hi_agent))) = [Some (S ''a''), Some (S ''a'')]"
  by (simp add: agent_defs)

subsection \<open>The result of a run\<close>

text \<open>
  Claim C3, as amended. \<^verbatim>\<open>Agent.run\<close> can raise: only the \<^verbatim>\<open>try\<close> suite of a turn is
  guarded. When it returns a node id, that id is the one the last turn returned together
  with \<^verbatim>\<open>is_stop = True\<close>. When it returns \<^verbatim>\<open>None\<close>, \<^verbatim>\<open>is_running\<close> is reset and
  the stop flag is set or no to-do node is left. In an environment in which nothing raises
  outside the \<^verbatim>\<open>try\<close> suite and nothing but \<^verbatim>\<open>Exception\<close>s are raised inside it, and
  with a \<^verbatim>\<open>for_node_id\<close> that is absent or names a node, the run does not raise. A
  loop whose turn returns with \<^verbatim>\<open>is_stop = False\<close>, the stop flag set or no to-do node
  left, returns \<^verbatim>\<open>None\<close>.

  In the other direction, an iteration of the loop whose turn returns \<^verbatim>\<open>is_stop = True\<close>
  returns the id of the node the turn returned, whatever the stop flag is; one whose turn
  returns \<^verbatim>\<open>is_stop = False\<close> reads the flag, returns \<^verbatim>\<open>None\<close> if it is set and goes on
  with the next to-do node if it is not; and one whose turn raises, raises. The run is this
  loop, after the insertion of the input and the input interpreter, and what these raise
  leaves the run. A turn raises what the part before its \<^verbatim>\<open>try\<close> suite raises, what
  leaves the \<^verbatim>\<open>try\<close> suite and is no \<^verbatim>\<open>Exception\<close>, and what the callback raises in the
  handler; a turn whose \<^verbatim>\<open>try\<close> suite completes returns the answer node.
\<close>

theorem run_returns:
  "(run k env input for_node_id s = Some (Inr (Some i), s') \<longrightarrow>
      (\<exists>node s1. execute_node env node s1 = (Inr (i, True), s')))
   \<and> (run k env input for_node_id s = Some (Inr None, s') \<longrightarrow>
        \<not> is_running s' \<and> (stop_event s' \<or> get_todo_node (memory s') = None))
   \<and> (guarded_env env \<and> (\<forall>j. for_node_id = Some j \<longrightarrow> get_node (memory s) j \<noteq> None) \<longrightarrow>
        run k env input for_node_id s \<noteq> Some (Inl e, s'))
   \<and> (execute_node env node s = (Inr (i, False), s1)
        \<and> (stop_event s1 \<or> get_todo_node (memory s1) = None) \<longrightarrow>
        (\<exists>s2. run_loop (Suc k) env (Some node) s = Some (Inr None, s2)))
   \<and> (execute_node env node s = (Inr (i, True), s1) \<longrightarrow>
        run_loop (Suc k) env (Some node) s = Some (Inr (Some i), s1))
   \<and> (execute_node env node s = (Inr (i, False), s1) \<and> yield env (world s1) = (stopped, w) \<longrightarrow>
        run_loop (Suc k) env (Some node) s
          = (if stop_event s1 \<or> stopped
             then Some (Inr None,
                    s1\<lparr>world := w, stop_event := True, trace := trace s1 @ [Poll True],
                        is_running := False\<rparr>)
             else run_loop k env (get_todo_node (memory s1))
                    (s1\<lparr>world := w, stop_event := False, trace := trace s1 @ [Poll False]\<rparr>)))
   \<and> (execute_node env node s = (Inl e, s1) \<longrightarrow>
        run_loop (Suc k) env (Some node) s = Some (Inl e, s1))
   \<and> run k env None for_node_id s
        = run_loop k env (get_todo_node (memory s)) (s\<lparr>is_running := True\<rparr>)
   \<and> (insert_node (memory s) inp for_node_id = Inl e \<longrightarrow>
        run k env (Some inp) for_node_id s = Some (Inl e, s\<lparr>is_running := True\<rparr>))
   \<and> (insert_node (memory s) inp for_node_id = Inr (input_node, m)
        \<and> input_interpreter env input_node (s\<lparr>is_running := True, memory := m\<rparr>) = (Some e, s1) \<longrightarrow>
        run k env (Some inp) for_node_id s = Some (Inl e, s1))
   \<and> (insert_node (memory s) inp for_node_id = Inr (input_node, m)
        \<and> input_interpreter env input_node (s\<lparr>is_running := True, memory := m\<rparr>) = (None, s1) \<longrightarrow>
        run k env (Some inp) for_node_id s
          = run_loop k env
              (case get_todo_node (memory s1) of Some n \<Rightarrow> Some n | None \<Rightarrow> Some input_node) s1)
   \<and> (begin_turn env node s = (Inl e, s2) \<longrightarrow> execute_node env node s = (Inl e, s2))
   \<and> (begin_turn env node s = (Inr (messages, answer_node), s2)
        \<and> try_suite env messages node answer_node s2 = ((None, result, is_stop), s3) \<longrightarrow>
        execute_node env node s = (Inr (node_id answer_node, is_stop), s3))
   \<and> (begin_turn env node s = (Inr (messages, answer_node), s2)
        \<and> try_suite env messages node answer_node s2 = ((Some e, result, is_stop), s3)
        \<and> \<not> is_Exception e \<longrightarrow>
        execute_node env node s = (Inl e, s3))
   \<and> (begin_turn env node s = (Inr (messages, answer_node), s2)
        \<and> try_suite env messages node answer_node s2 = ((Some e, result, is_stop), s3)
        \<and> is_Exception e
        \<and> fst (fst (output_recall env (Some result) (world s3))) = Some e' \<longrightarrow>
        fst (execute_node env node s) = Inl e')"
proof -
  have a: "\<exists>node s1. execute_node env node s1 = (Inr (i, True), s')"
    if "run k env input for_node_id s = Some (Inr (Some i), s')"
    using that
    by (auto simp add: run_def Let_def split: option.splits sum.splits prod.splits
        dest: run_loop_id)
  have b: "\<not> is_running s' \<and> (stop_event s' \<or> get_todo_node (memory s') = None)"
    if "run k env input for_node_id s = Some (Inr None, s')"
  proof (cases input)
    case None
    with that have rl: "run_loop k env (get_todo_node (memory s)) (s\<lparr>is_running := True\<rparr>)
        = Some (Inr None, s')"
      by (simp add: run_def Let_def)
    show ?thesis
    proof (cases "get_todo_node (memory s)")
      case None
      with rl show ?thesis by auto
    next
      case (Some n)
      with run_loop_none [OF rl] show ?thesis by simp
    qed
  next
    case (Some inp)
    with that show ?thesis
      by (auto simp add: run_def Let_def split: option.splits sum.splits prod.splits
          dest!: run_loop_none)
  qed
  have c: "run k env input for_node_id s \<noteq> Some (Inl e, s')"
    if g: "guarded_env env" and f: "\<forall>j. for_node_id = Some j \<longrightarrow> get_node (memory s) j \<noteq> None"
  proof (cases input)
    case None
    with run_loop_returns [OF g] show ?thesis
      by (simp add: run_def Let_def)
  next
    case (Some inp)
    from insert_node_returns [OF f, of inp] obtain input_node m
      where ins: "insert_node (memory s) inp for_node_id = Inr (input_node, m)"
      by (cases "insert_node (memory s) inp for_node_id") auto
    obtain x s2 where ii: "input_interpreter env input_node (s\<lparr>is_running := True, memory := m\<rparr>) = (x, s2)"
      by (metis prod.exhaust)
    with input_interpreter_returns [OF g, of input_node "s\<lparr>is_running := True, memory := m\<rparr>"]
    have "x = None" by simp
    with Some ins ii run_loop_returns [OF g] show ?thesis
      by (simp add: run_def Let_def)
  qed
  have a': "run k env input for_node_id s = Some (Inr (Some i), s') \<longrightarrow>
      (\<exists>node s1. execute_node env node s1 = (Inr (i, True), s'))"
    using a by blast
  have b': "run k env input for_node_id s = Some (Inr None, s') \<longrightarrow>
        \<not> is_running s' \<and> (stop_event s' \<or> get_todo_node (memory s') = None)"
    using b by blast
  have c': "guarded_env env \<and> (\<forall>j. for_node_id = Some j \<longrightarrow> get_node (memory s) j \<noteq> None) \<longrightarrow>
        run k env input for_node_id s \<noteq> Some (Inl e, s')"
    using c by blast
  have d: "execute_node env node s = (Inr (i, False), s1)
        \<and> (stop_event s1 \<or> get_todo_node (memory s1) = None) \<longrightarrow>
        (\<exists>s2. run_loop (Suc k) env (Some node) s = Some (Inr None, s2))"
    using run_loop_cancel_or_exhaust [of env node s i s1 k] by blast
  have e: "execute_node env node s = (Inr (i, True), s1) \<longrightarrow>
        run_loop (Suc k) env (Some node) s = Some (Inr (Some i), s1)"
    using run_loop_stop [of env node s i s1 k] by blast
  have f: "execute_node env node s = (Inr (i, False), s1) \<and> yield env (world s1) = (stopped, w) \<longrightarrow>
        run_loop (Suc k) env (Some node) s
          = (if stop_event s1 \<or> stopped
             then Some (Inr None,
                    s1\<lparr>world := w, stop_event := True, trace := trace s1 @ [Poll True],
                        is_running := False\<rparr>)
             else run_loop k env (get_todo_node (memory s1))
                    (s1\<lparr>world := w, stop_event := False, trace := trace s1 @ [Poll False]\<rparr>))"
    using run_loop_poll [of env node s i s1 stopped w k] by blast
  have g: "execute_node env node s = (Inl e, s1) \<longrightarrow>
        run_loop (Suc k) env (Some node) s = Some (Inl e, s1)"
    using run_loop_raise [of env node s e s1 k] by blast
  note h = run_no_input [of k env for_node_id s]
  have i: "insert_node (memory s) inp for_node_id = Inl e \<longrightarrow>
        run k env (Some inp) for_node_id s = Some (Inl e, s\<lparr>is_running := True\<rparr>)"
    using run_insert_raises [of s inp for_node_id e k env] by blast
  have j: "insert_node (memory s) inp for_node_id = Inr (input_node, m)
        \<and> input_interpreter env input_node (s\<lparr>is_running := True, memory := m\<rparr>) = (Some e, s1) \<longrightarrow>
        run k env (Some inp) for_node_id s = Some (Inl e, s1)"
    using run_input_raises [of s inp for_node_id input_node m env e s1 k] by blast
  have k: "insert_node (memory s) inp for_node_id = Inr (input_node, m)
        \<and> input_interpreter env input_node (s\<lparr>is_running := True, memory := m\<rparr>) = (None, s1) \<longrightarrow>
        run k env (Some inp) for_node_id s
          = run_loop k env
              (case get_todo_node (memory s1) of Some n \<Rightarrow> Some n | None \<Rightarrow> Some input_node) s1"
    using run_input [of s inp for_node_id input_node m env s1 k] by blast
  have l: "begin_turn env node s = (Inl e, s2) \<longrightarrow> execute_node env node s = (Inl e, s2)"
    using execute_node_begin_raises [of env node s e s2] by blast
  have m: "begin_turn env node s = (Inr (messages, answer_node), s2)
        \<and> try_suite env messages node answer_node s2 = ((None, result, is_stop), s3) \<longrightarrow>
        execute_node env node s = (Inr (node_id answer_node, is_stop), s3)"
    using execute_node_completes [of env node s messages answer_node s2 result is_stop s3] by blast
  have n: "begin_turn env node s = (Inr (messages, answer_node), s2)
        \<and> try_suite env messages node answer_node s2 = ((Some e, result, is_stop), s3)
        \<and> \<not> is_Exception e \<longrightarrow>
        execute_node env node s = (Inl e, s3)"
    using execute_node_base [of env node s messages answer_node s2 e result is_stop s3] by blast
  have o: "begin_turn env node s = (Inr (messages, answer_node), s2)
        \<and> try_suite env messages node answer_node s2 = ((Some e, result, is_stop), s3)
        \<and> is_Exception e
        \<and> fst (fst (output_recall env (Some result) (world s3))) = Some e' \<longrightarrow>
        fst (execute_node env node s) = Inl e'"
    using execute_node_handler_raises [of env node s messages answer_node s2 e result is_stop s3 e']
    by blast
  from a' b' c' d e f g h i j k l m n o show ?thesis
    by (intro conjI)
qed

text \<open>
  A run whose first turn ends on the python interpreter's \<^verbatim>\<open>is_stop\<close>; a run whose only
  turn is a plain answer, after which no to-do node is left; a turn that ends on
  \<^verbatim>\<open>is_stop\<close> with the stop flag set; a turn during which the callback raises; a
  \<^verbatim>\<open>for_node_id\<close> that names no node; an input interpreter that raises; a system prompt
  that cannot be built; a response that raises a \<^verbatim>\<open>BaseException\<close>; and a callback that
  raises in the handler.
\<close>

theorem run_returns_witness:
  "(\<exists>s' node s1.
      run (Suc 0) (script_env [Token (S ''a'')] [python_interpreter] True returns)
        (Some (S ''hi'')) None fresh_agent = Some (Inr (Some 1), s')
      \<and> execute_node (script_env [Token (S ''a'')] [python_interpreter] True returns) node s1
          = (Inr (1, True), s'))
   \<and> (\<exists>s'. run (Suc 0) (script_env [Token (S ''a'')] [] False returns)
          (Some (S ''hi'')) None fresh_agent = Some (Inr None, s')
        \<and> \<not> is_running s' \<and> get_todo_node (memory s') = None)
   \<and> guarded_env (script_env [Token (S ''a'')] [] False returns)
   \<and> (\<forall>e s'. run (Suc 0) (script_env [Token (S ''a'')] [] False returns)
          (Some (S ''hi'')) None fresh_agent \<noteq> Some (Inl e, s'))
   \<and> (\<exists>s1 s2. execute_node (script_env [Token (S ''a'')] [] False returns) hi_node hi_agent
          = (Inr (1, False), s1)
        \<and> get_todo_node (memory s1) = None
        \<and> run_loop (Suc 0) (script_env [Token (S ''a'')] [] False returns) (Some hi_node) hi_agent
          = Some (Inr None, s2))
   \<and> (\<exists>s1. execute_node (script_env [Token (S ''a'')] [python_interpreter] True stops)
          hi_node hi_agent = (Inr (1, True), s1)
        \<and> stop_event s1
        \<and> run_loop (Suc 0) (script_env [Token (S ''a'')] [python_interpreter] True stops)
            (Some hi_node) hi_agent = Some (Inr (Some 1), s1))
   \<and> (\<exists>s1. execute_node (script_env [Token (S ''a'')] [] False returns) hi_node hi_agent
          = (Inr (1, False), s1)
        \<and> yield (script_env [Token (S ''a'')] [] False returns) (world s1) = (False, ())
        \<and> \<not> stop_event s1
        \<and> run_loop (Suc 0) (script_env [Token (S ''a'')] [] False returns) (Some hi_node) hi_agent
          = run_loop 0 (script_env [Token (S ''a'')] [] False returns) (get_todo_node (memory s1))
              (s1\<lparr>world := (), stop_event := False, trace := trace s1 @ [Poll False]\<rparr>))
   \<and> (\<exists>s1. execute_node (script_env [Token (S ''a'')] [] False raises) hi_node hi_agent
          = (Inl (Exception (S ''callback'')), s1)
        \<and> run_loop (Suc 0) (script_env [Token (S ''a'')] [] False raises) (Some hi_node) hi_agent
          = Some (Inl (Exception (S ''callback'')), s1))
   \<and> insert_node (memory fresh_agent) (S ''hi'') (Some 5) = Inl (Exception (S ''get_node''))
   \<and> run (Suc 0) (script_env [Token (S ''a'')] [] False returns) (Some (S ''hi'')) (Some 5)
        fresh_agent = Some (Inl (Exception (S ''get_node'')), fresh_agent\<lparr>is_running := True\<rparr>)
   \<and> (\<exists>n m s1. insert_node (memory fresh_agent) (S ''hi'') None = Inr (n, m)
        \<and> input_interpreter
            ((script_env [Token (S ''a'')] [] False returns)
               \<lparr>plan_match := \<lambda>c. True,
                 plan_parse := \<lambda>c m w. (Inl (Exception (S ''plan'')), w)\<rparr>)
            n (fresh_agent\<lparr>is_running := True, memory := m\<rparr>) = (Some (Exception (S ''plan'')), s1)
        \<and> run (Suc 0)
            ((script_env [Token (S ''a'')] [] False returns)
               \<lparr>plan_match := \<lambda>c. True,
                 plan_parse := \<lambda>c m w. (Inl (Exception (S ''plan'')), w)\<rparr>)
            (Some (S ''hi'')) None fresh_agent = Some (Inl (Exception (S ''plan'')), s1))
   \<and> (\<exists>n m s1. insert_node (memory fresh_agent) (S ''hi'') None = Inr (n, m)
        \<and> input_interpreter (script_env [Token (S ''a'')] [] False returns) n
            (fresh_agent\<lparr>is_running := True, memory := m\<rparr>) = (None, s1)
        \<and> run (Suc 0) (script_env [Token (S ''a'')] [] False returns) (Some (S ''hi'')) None
            fresh_agent
          = run_loop (Suc 0) (script_env [Token (S ''a'')] [] False returns)
              (case get_todo_node (memory s1) of Some n \<Rightarrow> Some n | None \<Rightarrow> Some n) s1)
   \<and> (\<exists>s2. begin_turn
          ((script_env [Token (S ''a'')] [] False returns)
             \<lparr>system_prompt := \<lambda>w. (Inl (Exception (S ''prompt'')), w)\<rparr>)
          hi_node hi_agent = (Inl (Exception (S ''prompt'')), s2)
        \<and> execute_node
          ((script_env [Token (S ''a'')] [] False returns)
             \<lparr>system_prompt := \<lambda>w. (Inl (Exception (S ''prompt'')), w)\<rparr>)
          hi_node hi_agent = (Inl (Exception (S ''prompt'')), s2))
   \<and> (\<exists>ms an s2 s3.
        begin_turn (script_env [Token (S ''a'')] [] False returns) hi_node hi_agent
          = (Inr (ms, an), s2)
        \<and> try_suite (script_env [Token (S ''a'')] [] False returns) ms hi_node an s2
          = ((None, S ''a'', False), s3)
        \<and> execute_node (script_env [Token (S ''a'')] [] False returns) hi_node hi_agent
          = (Inr (node_id an, False), s3))
   \<and> (\<exists>ms an s2 s3.
        begin_turn (script_env [Fails (BaseException (S ''kill''))] [] False returns) hi_node hi_agent
          = (Inr (ms, an), s2)
        \<and> try_suite (script_env [Fails (BaseException (S ''kill''))] [] False returns) ms hi_node an s2
          = ((Some (BaseException (S ''kill'')), [], False), s3)
        \<and> execute_node (script_env [Fails (BaseException (S ''kill''))] [] False returns)
            hi_node hi_agent = (Inl (BaseException (S ''kill'')), s3))
   \<and> (\<exists>ms an s2 s3.
        begin_turn (script_env [Fails (Exception (S ''net''))] [] False raises) hi_node hi_agent
          = (Inr (ms, an), s2)
        \<and> try_suite (script_env [Fails (Exception (S ''net''))] [] False raises) ms hi_node an s2
          = ((Some (Exception (S ''net'')), [], False), s3)
        \<and> fst (fst (output_recall (script_env [Fails (Exception (S ''net''))] [] False raises)
             (Some []) (world s3))) = Some (Exception (S ''callback''))
        \<and> fst (execute_node (script_env [Fails (Exception (S ''net''))] [] False raises)
            hi_node hi_agent) = Inl (Exception (S ''callback'')))"
proof -
  let ?e1 = "script_env [Token (S ''a'')] [python_interpreter] True returns"
  let ?e2 = "script_env [Token (S ''a'')] [] False returns"
  let ?e3 = "script_env [Token (S ''a'')] [python_interpreter] True stops"
  let ?e4 = "script_env [Token (S ''a'')] [] False raises"
  let ?e5 = "?e2\<lparr>plan_match := \<lambda>c. True, plan_parse := \<lambda>c m w. (Inl (Exception (S ''plan'')), w)\<rparr>"
  let ?e6 = "?e2\<lparr>system_prompt := \<lambda>w. (Inl (Exception (S ''prompt'')), w)\<rparr>"
  let ?e7 = "script_env [Fails (BaseException (S ''kill''))] [] False returns"
  let ?e8 = "script_env [Fails (Exception (S ''net''))] [] False raises"
  obtain s' where r1: "run (Suc 0) ?e1 (Some (S ''hi'')) None fresh_agent = Some (Inr (Some 1), s')"
    by (simp add: run_defs agent_defs)
  from run_returns [where k = "Suc 0" and env = ?e1 and input = "Some (S ''hi'')"
      and for_node_id = None and s = fresh_agent and i = 1 and s' = s',
      THEN conjunct1] r1
  have a: "\<exists>node s1. execute_node ?e1 node s1 = (Inr (1, True), s')"
    by blast
  from r1 a have c1: "\<exists>s' node s1.
      run (Suc 0) ?e1 (Some (S ''hi'')) None fresh_agent = Some (Inr (Some 1), s')
      \<and> execute_node ?e1 node s1 = (Inr (1, True), s')"
    by blast
  obtain s'' where r2: "run (Suc 0) ?e2 (Some (S ''hi'')) None fresh_agent = Some (Inr None, s'')"
    by (simp add: run_defs agent_defs)
  have t2: "get_todo_node (memory s'') = None"
    using r2 by (auto simp add: run_defs agent_defs)
  from run_returns [where k = "Suc 0" and env = ?e2 and input = "Some (S ''hi'')"
      and for_node_id = None and s = fresh_agent and s' = s'',
      THEN conjunct2, THEN conjunct1] r2
  have b: "\<not> is_running s''"
    by blast
  from r2 b t2 have c2: "\<exists>s'. run (Suc 0) ?e2 (Some (S ''hi'')) None fresh_agent = Some (Inr None, s')
        \<and> \<not> is_running s' \<and> get_todo_node (memory s') = None"
    by blast
  have g: "guarded_env ?e2"
    by (simp add: guarded_env_def script_env_def returns_def)
  have c: "run (Suc 0) ?e2 (Some (S ''hi'')) None fresh_agent \<noteq> Some (Inl e, s)" for e s
    using run_returns [where k = "Suc 0" and env = ?e2 and input = "Some (S ''hi'')"
      and for_node_id = None and s = fresh_agent and s' = s and e = e,
      THEN conjunct2, THEN conjunct2, THEN conjunct1] g
    by blast
  then have c3: "\<forall>e s'. run (Suc 0) ?e2 (Some (S ''hi'')) None fresh_agent \<noteq> Some (Inl e, s')"
    by blast
  obtain s1 where x: "execute_node ?e2 hi_node hi_agent = (Inr (1, False), s1)"
    by (simp add: agent_defs)
  have t1: "get_todo_node (memory s1) = None"
    using x by (auto simp add: agent_defs)
  have f1: "\<not> stop_event s1"
    using x by (auto simp add: agent_defs)
  have y1: "yield ?e2 (world s1) = (False, ())"
    by (simp add: script_env_def)
  from run_returns [where k = 0 and env = ?e2 and s = hi_agent and i = 1 and node = hi_node
      and ?s1.0 = s1,
      THEN conjunct2, THEN conjunct2, THEN conjunct2, THEN conjunct1] x t1
  have d: "\<exists>s2. run_loop (Suc 0) ?e2 (Some hi_node) hi_agent = Some (Inr None, s2)"
    by blast
  from x t1 d have c4: "\<exists>s1 s2. execute_node ?e2 hi_node hi_agent = (Inr (1, False), s1)
        \<and> get_todo_node (memory s1) = None
        \<and> run_loop (Suc 0) ?e2 (Some hi_node) hi_agent = Some (Inr None, s2)"
    by blast
  obtain s5 where x5: "execute_node ?e3 hi_node hi_agent = (Inr (1, True), s5)"
    by (simp add: agent_defs stops_def)
  have f5: "stop_event s5"
    using x5 by (auto simp add: agent_defs stops_def)
  from run_returns [where k = 0 and env = ?e3 and s = hi_agent and i = 1 and node = hi_node
      and ?s1.0 = s5,
      THEN conjunct2, THEN conjunct2, THEN conjunct2, THEN conjunct2, THEN conjunct1] x5
  have "run_loop (Suc 0) ?e3 (Some hi_node) hi_agent = Some (Inr (Some 1), s5)"
    by blast
  with x5 f5 have c5: "\<exists>s1. execute_node ?e3 hi_node hi_agent = (Inr (1, True), s1)
        \<and> stop_event s1
        \<and> run_loop (Suc 0) ?e3 (Some hi_node) hi_agent = Some (Inr (Some 1), s1)"
    by blast
  from run_returns [where k = 0 and env = ?e2 and s = hi_agent and i = 1 and node = hi_node
      and ?s1.0 = s1 and stopped = False and w = "()",
      THEN conjunct2, THEN conjunct2, THEN conjunct2, THEN conjunct2, THEN conjunct2,
       THEN conjunct1] x y1 f1
  have "run_loop (Suc 0) ?e2 (Some hi_node) hi_agent
      = run_loop 0 ?e2 (get_todo_node (memory s1))
          (s1\<lparr>world := (), stop_event := False, trace := trace s1 @ [Poll False]\<rparr>)"
    by simp
  with x y1 f1 have c6: "\<exists>s1. execute_node ?e2 hi_node hi_agent = (Inr (1, False), s1)
        \<and> yield ?e2 (world s1) = (False, ())
        \<and> \<not> stop_event s1
        \<and> run_loop (Suc 0) ?e2 (Some hi_node) hi_agent
          = run_loop 0 ?e2 (get_todo_node (memory s1))
              (s1\<lparr>world := (), stop_event := False, trace := trace s1 @ [Poll False]\<rparr>)"
    by blast
  obtain s7 where x7: "execute_node ?e4 hi_node hi_agent = (Inl (Exception (S ''callback'')), s7)"
    by (simp add: agent_defs)
  from run_returns [where k = 0 and env = ?e4 and s = hi_agent and node = hi_node
      and ?s1.0 = s7 and e = "Exception (S ''callback'')",
      THEN conjunct2, THEN conjunct2, THEN conjunct2, THEN conjunct2, THEN conjunct2,
       THEN conjunct2, THEN conjunct1] x7
  have "run_loop (Suc 0) ?e4 (Some hi_node) hi_agent = Some (Inl (Exception (S ''callback'')), s7)"
    by blast
  with x7 have c7: "\<exists>s1. execute_node ?e4 hi_node hi_agent = (Inl (Exception (S ''callback'')), s1)
        \<and> run_loop (Suc 0) ?e4 (Some hi_node) hi_agent = Some (Inl (Exception (S ''callback'')), s1)"
    by blast
  have c8: "insert_node (memory fresh_agent) (S ''hi'') (Some 5) = Inl (Exception (S ''get_node''))"
    by (simp add: run_defs agent_defs)
  from run_returns [where k = "Suc 0" and env = ?e2 and s = fresh_agent and inp = "S ''hi''"
      and for_node_id = "Some 5" and e = "Exception (S ''get_node'')",
      THEN conjunct2, THEN conjunct2, THEN conjunct2, THEN conjunct2, THEN conjunct2,
       THEN conjunct2, THEN conjunct2, THEN conjunct2, THEN conjunct1] c8
  have c9: "run (Suc 0) ?e2 (Some (S ''hi'')) (Some 5) fresh_agent
      = Some (Inl (Exception (S ''get_node'')), fresh_agent\<lparr>is_running := True\<rparr>)"
    by blast
  obtain n m where ins: "insert_node (memory fresh_agent) (S ''hi'') None = Inr (n, m)"
    by (simp add: run_defs agent_defs)
  obtain s10 where
    i10: "input_interpreter ?e5 n (fresh_agent\<lparr>is_running := True, memory := m\<rparr>)
      = (Some (Exception (S ''plan'')), s10)"
    by (simp add: run_defs agent_defs)
  from run_returns [where k = "Suc 0" and env = ?e5 and s = fresh_agent and inp = "S ''hi''"
      and for_node_id = None and e = "Exception (S ''plan'')" and input_node = n and m = m
      and ?s1.0 = s10,
      THEN conjunct2, THEN conjunct2, THEN conjunct2, THEN conjunct2, THEN conjunct2,
       THEN conjunct2, THEN conjunct2, THEN conjunct2, THEN conjunct2, THEN conjunct1] ins i10
  have "run (Suc 0) ?e5 (Some (S ''hi'')) None fresh_agent = Some (Inl (Exception (S ''plan'')), s10)"
    by blast
  with ins i10 have c10: "\<exists>n m s1. insert_node (memory fresh_agent) (S ''hi'') None = Inr (n, m)
        \<and> input_interpreter ?e5 n (fresh_agent\<lparr>is_running := True, memory := m\<rparr>)
            = (Some (Exception (S ''plan'')), s1)
        \<and> run (Suc 0) ?e5 (Some (S ''hi'')) None fresh_agent = Some (Inl (Exception (S ''plan'')), s1)"
    by blast
  obtain s11 where
    i11: "input_interpreter ?e2 n (fresh_agent\<lparr>is_running := True, memory := m\<rparr>) = (None, s11)"
    by (simp add: run_defs agent_defs)
  from run_returns [where k = "Suc 0" and env = ?e2 and s = fresh_agent and inp = "S ''hi''"
      and for_node_id = None and input_node = n and m = m and ?s1.0 = s11,
      THEN conjunct2, THEN conjunct2, THEN conjunct2, THEN conjunct2, THEN conjunct2,
       THEN conjunct2, THEN conjunct2, THEN conjunct2, THEN conjunct2, THEN conjunct2,
       THEN conjunct1] ins i11
  have "run (Suc 0) ?e2 (Some (S ''hi'')) None fresh_agent
          = run_loop (Suc 0) ?e2
              (case get_todo_node (memory s11) of Some n \<Rightarrow> Some n | None \<Rightarrow> Some n) s11"
    by blast
  with ins i11 have c11: "\<exists>n m s1. insert_node (memory fresh_agent) (S ''hi'') None = Inr (n, m)
        \<and> input_interpreter ?e2 n (fresh_agent\<lparr>is_running := True, memory := m\<rparr>) = (None, s1)
        \<and> run (Suc 0) ?e2 (Some (S ''hi'')) None fresh_agent
          = run_loop (Suc 0) ?e2
              (case get_todo_node (memory s1) of Some n \<Rightarrow> Some n | None \<Rightarrow> Some n) s1"
    by blast
  obtain s12 where b12: "begin_turn ?e6 hi_node hi_agent = (Inl (Exception (S ''prompt'')), s12)"
    by (simp add: agent_defs)
  from run_returns [where env = ?e6 and s = hi_agent and node = hi_node
      and e = "Exception (S ''prompt'')" and ?s2.0 = s12,
      THEN conjunct2, THEN conjunct2, THEN conjunct2, THEN conjunct2, THEN conjunct2,
       THEN conjunct2, THEN conjunct2, THEN conjunct2, THEN conjunct2, THEN conjunct2,
       THEN conjunct2, THEN conjunct1] b12
  have "execute_node ?e6 hi_node hi_agent = (Inl (Exception (S ''prompt'')), s12)"
    by blast
  with b12 have c12: "\<exists>s2. begin_turn ?e6 hi_node hi_agent = (Inl (Exception (S ''prompt'')), s2)
        \<and> execute_node ?e6 hi_node hi_agent = (Inl (Exception (S ''prompt'')), s2)"
    by blast
  obtain ms an s2 where b13: "begin_turn ?e2 hi_node hi_agent = (Inr (ms, an), s2)"
    by (simp add: agent_defs)
  obtain s3 where t13: "try_suite ?e2 ms hi_node an s2 = ((None, S ''a'', False), s3)"
    by (simp add: agent_defs)
  from run_returns [where env = ?e2 and s = hi_agent and node = hi_node and messages = ms
      and answer_node = an and ?s2.0 = s2 and result = "S ''a''" and is_stop = False
      and ?s3.0 = s3,
      THEN conjunct2, THEN conjunct2, THEN conjunct2, THEN conjunct2, THEN conjunct2,
       THEN conjunct2, THEN conjunct2, THEN conjunct2, THEN conjunct2, THEN conjunct2,
       THEN conjunct2, THEN conjunct2, THEN conjunct1] b13 t13
  have "execute_node ?e2 hi_node hi_agent = (Inr (node_id an, False), s3)"
    by blast
  with b13 t13 have c13: "\<exists>ms an s2 s3.
        begin_turn ?e2 hi_node hi_agent = (Inr (ms, an), s2)
        \<and> try_suite ?e2 ms hi_node an s2 = ((None, S ''a'', False), s3)
        \<and> execute_node ?e2 hi_node hi_agent = (Inr (node_id an, False), s3)"
    by blast
  obtain ms' an' s2' where b14: "begin_turn ?e7 hi_node hi_agent = (Inr (ms', an'), s2')"
    by (simp add: agent_defs)
  obtain s3' where t14: "try_suite ?e7 ms' hi_node an' s2'
      = ((Some (BaseException (S ''kill'')), [], False), s3')"
    by (simp add: agent_defs)
  from run_returns [where env = ?e7 and s = hi_agent and node = hi_node and messages = ms'
      and answer_node = an' and ?s2.0 = s2' and result = "[]" and is_stop = False
      and ?s3.0 = s3' and e = "BaseException (S ''kill'')",
      THEN conjunct2, THEN conjunct2, THEN conjunct2, THEN conjunct2, THEN conjunct2,
       THEN conjunct2, THEN conjunct2, THEN conjunct2, THEN conjunct2, THEN conjunct2,
       THEN conjunct2, THEN conjunct2, THEN conjunct2, THEN conjunct1] b14 t14
  have "execute_node ?e7 hi_node hi_agent = (Inl (BaseException (S ''kill'')), s3')"
    by simp
  with b14 t14 have c14: "\<exists>ms an s2 s3.
        begin_turn ?e7 hi_node hi_agent = (Inr (ms, an), s2)
        \<and> try_suite ?e7 ms hi_node an s2 = ((Some (BaseException (S ''kill'')), [], False), s3)
        \<and> execute_node ?e7 hi_node hi_agent = (Inl (BaseException (S ''kill'')), s3)"
    by blast
  obtain ms'' an'' s2'' where b15: "begin_turn ?e8 hi_node hi_agent = (Inr (ms'', an''), s2'')"
    by (simp add: agent_defs)
  obtain s3'' where t15: "try_suite ?e8 ms'' hi_node an'' s2''
      = ((Some (Exception (S ''net'')), [], False), s3'')"
    by (simp add: agent_defs)
  have q15: "fst (fst (output_recall ?e8 (Some []) (world s3''))) = Some (Exception (S ''callback''))"
    by (simp add: agent_defs)
  from run_returns [where env = ?e8 and s = hi_agent and node = hi_node and messages = ms''
      and answer_node = an'' and ?s2.0 = s2'' and result = "[]" and is_stop = False
      and ?s3.0 = s3'' and e = "Exception (S ''net'')" and e' = "Exception (S ''callback'')",
      THEN conjunct2, THEN conjunct2, THEN conjunct2, THEN conjunct2, THEN conjunct2,
       THEN conjunct2, THEN conjunct2, THEN conjunct2, THEN conjunct2, THEN conjunct2,
       THEN conjunct2, THEN conjunct2, THEN conjunct2, THEN conjunct2]
    b15 t15 q15
  have "fst (execute_node ?e8 hi_node hi_agent) = Inl (Exception (S ''callback''))"
    by simp
  with b15 t15 q15 have c15: "\<exists>ms an s2 s3.
        begin_turn ?e8 hi_node hi_agent = (Inr (ms, an), s2)
        \<and> try_suite ?e8 ms hi_node an s2 = ((Some (Exception (S ''net'')), [], False), s3)
        \<and> fst (fst (output_recall ?e8 (Some []) (world s3))) = Some (Exception (S ''callback''))
        \<and> fst (execute_node ?e8 hi_node hi_agent) = Inl (Exception (S ''callback''))"
    by blast
  from c1 c2 g c3 c4 c5 c6 c7 c8 c9 c10 c11 c12 c13 c14 c15 show ?thesis
    by (intro conjI)
qed

text \<open>
  Claim C3 as stated fails: with a callback that raises, the exception it raises on the
  token \<open>a\<close> is caught, the handler calls it again with the text accumulated, and the
  exception it raises then leaves \<^verbatim>\<open>_execute_node\<close> and \<^verbatim>\<open>Agent.run\<close>.
\<close>

theorem run_raises_counterexample:
  "map_option fst
     (run (Suc 0) (script_env [Token (S ''a'')] [] False raises) (Some (S ''hi'')) None fresh_agent)
   = Some (Inl (Exception (S ''callback'')))"
  by (simp add: run_defs agent_defs)

subsection \<open>When the stop flag is read\<close>

text \<open>
  Claim C8, as amended. A turn never reads the stop flag: none of its events is a reading
  of the flag, and with the flag set it does what it does with the flag as it was (it
  leaves the flag set). The loop of \<^verbatim>\<open>Agent.run\<close> reads the flag at most once in an
  iteration, after the turn: once in every iteration whose turn returns with
  \<^verbatim>\<open>is_stop = False\<close>, and not in the iteration that returns on \<^verbatim>\<open>is_stop\<close> or
  raises; so a run that returns \<^verbatim>\<open>None\<close> has read it once for every turn, and any other
  run once less. When the flag is set at the end of a turn that returns with
  \<^verbatim>\<open>is_stop = False\<close>, the run returns \<^verbatim>\<open>None\<close> after that turn, its one further event
  the reading of the flag. A turn that returns with \<^verbatim>\<open>is_stop = True\<close> makes the run
  return the id of the node the turn returned, in the state the turn left, the flag set or
  not and never read; a turn that raises makes the run raise, the flag not read. And an
  iteration whose turn returns with \<^verbatim>\<open>is_stop = False\<close> yields once, reads the flag
  once, and returns \<^verbatim>\<open>None\<close> if the flag is set then, or goes on with the next to-do
  node.
\<close>

theorem cancellation_polling:
  "polls (new_events s (snd (execute_node env node s))) = 0
   \<and> execute_node env node (s\<lparr>stop_event := True\<rparr>)
       = (fst (execute_node env node s), (snd (execute_node env node s))\<lparr>stop_event := True\<rparr>)
   \<and> (run_loop k env todo s = Some (r, s') \<longrightarrow>
        polls (new_events s s') + (case r of Inr None \<Rightarrow> 0 | Inr (Some i) \<Rightarrow> 1 | Inl e \<Rightarrow> 1)
          = executes (new_events s s'))
   \<and> (execute_node env node s = (Inr (i, False), s1) \<and> stop_event s1 \<longrightarrow>
        (\<exists>s2. run_loop (Suc k) env (Some node) s = Some (Inr None, s2)
           \<and> trace s2 = trace s1 @ [Poll True]))
   \<and> (execute_node env node s = (Inr (i, True), s1) \<longrightarrow>
        run_loop (Suc k) env (Some node) s = Some (Inr (Some i), s1)
        \<and> polls (new_events s s1) = 0)
   \<and> (execute_node env node s = (Inl e, s1) \<longrightarrow>
        run_loop (Suc k) env (Some node) s = Some (Inl e, s1)
        \<and> polls (new_events s s1) = 0)
   \<and> (execute_node env node s = (Inr (i, False), s1) \<and> yield env (world s1) = (stopped, w) \<longrightarrow>
        run_loop (Suc k) env (Some node) s
          = (if stop_event s1 \<or> stopped
             then Some (Inr None,
                    s1\<lparr>world := w, stop_event := True, trace := trace s1 @ [Poll True],
                        is_running := False\<rparr>)
             else run_loop k env (get_todo_node (memory s1))
                    (s1\<lparr>world := w, stop_event := False, trace := trace s1 @ [Poll False]\<rparr>)))"
proof -
  obtain x sx where ex: "execute_node env node s = (x, sx)"
    by (metis prod.exhaust)
  from execute_node_inner [OF ex] have a: "polls (new_events s (snd (execute_node env node s))) = 0"
    using ex by (auto simp add: new_events_def inner_def)
  note b = execute_node_flag [of env node s]
  have c: "run_loop k env todo s = Some (r, s') \<longrightarrow>
        polls (new_events s s') + (case r of Inr None \<Rightarrow> 0 | Inr (Some i) \<Rightarrow> 1 | Inl e \<Rightarrow> 1)
          = executes (new_events s s')"
  proof
    assume "run_loop k env todo s = Some (r, s')"
    from run_loop_polls [OF this] show "polls (new_events s s')
        + (case r of Inr None \<Rightarrow> 0 | Inr (Some i) \<Rightarrow> 1 | Inl e \<Rightarrow> 1) = executes (new_events s s')"
      by (auto simp add: new_events_def)
  qed
  have d: "execute_node env node s = (Inr (i, False), s1) \<and> stop_event s1 \<longrightarrow>
        (\<exists>s2. run_loop (Suc k) env (Some node) s = Some (Inr None, s2)
           \<and> trace s2 = trace s1 @ [Poll True])"
    using run_loop_cancelled [of env node s i s1 k] by blast
  have e: "execute_node env node s = (Inr (i, True), s1) \<longrightarrow>
        run_loop (Suc k) env (Some node) s = Some (Inr (Some i), s1)
        \<and> polls (new_events s s1) = 0"
    using run_loop_stop [of env node s i s1 k] a by auto
  have f: "execute_node env node s = (Inl e, s1) \<longrightarrow>
        run_loop (Suc k) env (Some node) s = Some (Inl e, s1)
        \<and> polls (new_events s s1) = 0"
    using run_loop_raise [of env node s e s1 k] a by auto
  have g: "execute_node env node s = (Inr (i, False), s1) \<and> yield env (world s1) = (stopped, w) \<longrightarrow>
        run_loop (Suc k) env (Some node) s
          = (if stop_event s1 \<or> stopped
             then Some (Inr None,
                    s1\<lparr>world := w, stop_event := True, trace := trace s1 @ [Poll True],
                        is_running := False\<rparr>)
             else run_loop k env (get_todo_node (memory s1))
                    (s1\<lparr>world := w, stop_event := False, trace := trace s1 @ [Poll False]\<rparr>))"
    using run_loop_poll [of env node s i s1 stopped w k] by blast
  from a b c d e f g show ?thesis
    by (intro conjI)
qed

text \<open>
  A turn during which the callback calls \<^verbatim>\<open>Agent.stop\<close>; a run of one turn with a
  callback that does not; a turn that ends on the python interpreter's \<^verbatim>\<open>is_stop\<close>
  with the flag set; and a turn that raises.
\<close>

theorem cancellation_polling_witness:
  "polls (new_events hi_agent
      (snd (execute_node (script_env [Token (S ''a'')] [] False stops) hi_node hi_agent))) = 0
   \<and> execute_node (script_env [Token (S ''a'')] [] False stops) hi_node (hi_agent\<lparr>stop_event := True\<rparr>)
      = (fst (execute_node (script_env [Token (S ''a'')] [] False stops) hi_node hi_agent),
         (snd (execute_node (script_env [Token (S ''a'')] [] False stops) hi_node hi_agent))
           \<lparr>stop_event := True\<rparr>)
   \<and> (\<exists>s'. run_loop (Suc 0) (script_env [Token (S ''a'')] [] False returns) (Some hi_node) hi_agent
          = Some (Inr None, s')
        \<and> polls (new_events hi_agent s') = 1 \<and> executes (new_events hi_agent s') = 1)
   \<and> (\<exists>s1 s2. execute_node (script_env [Token (S ''a'')] [] False stops) hi_node hi_agent
          = (Inr (1, False), s1)
        \<and> stop_event s1
        \<and> run_loop (Suc 0) (script_env [Token (S ''a'')] [] False stops) (Some hi_node) hi_agent
          = Some (Inr None, s2)
        \<and> trace s2 = trace s1 @ [Poll True])
   \<and> (\<exists>s1. execute_node (script_env [Token (S ''a'')] [python_interpreter] True stops)
          hi_node hi_agent = (Inr (1, True), s1)
        \<and> stop_event s1
        \<and> run_loop (Suc 0) (script_env [Token (S ''a'')] [python_interpreter] True stops)
            (Some hi_node) hi_agent = Some (Inr (Some 1), s1)
        \<and> polls (new_events hi_agent s1) = 0)
   \<and> (\<exists>s1. execute_node (script_env [Token (S ''a'')] [] False raises) hi_node hi_agent
          = (Inl (Exception (S ''callback'')), s1)
        \<and> run_loop (Suc 0) (script_env [Token (S ''a'')] [] False raises) (Some hi_node) hi_agent
          = Some (Inl (Exception (S ''callback'')), s1)
        \<and> polls (new_events hi_agent s1) = 0)
   \<and> (\<exists>s1. execute_node (script_env [Token (S ''a'')] [] False returns) hi_node hi_agent
          = (Inr (1, False), s1)
        \<and> yield (script_env [Token (S ''a'')] [] False returns) (world s1) = (False, ())
        \<and> \<not> stop_event s1
        \<and> run_loop (Suc 0) (script_env [Token (S ''a'')] [] False returns) (Some hi_node) hi_agent
          = run_loop 0 (script_env [Token (S ''a'')] [] False returns) (get_todo_node (memory s1))
              (s1\<lparr>world := (), stop_event := False, trace := trace s1 @ [Poll False]\<rparr>))"
proof -
  let ?e = "script_env [Token (S ''a'')] [] False stops"
  let ?q = "script_env [Token (S ''a'')] [] False returns"
  let ?p = "script_env [Token (S ''a'')] [python_interpreter] True stops"
  let ?x = "script_env [Token (S ''a'')] [] False raises"
  note c1 = cancellation_polling [where s = hi_agent and env = ?e and node = hi_node,
      THEN conjunct1]
  note c2 = cancellation_polling [where s = hi_agent and env = ?e and node = hi_node,
      THEN conjunct2, THEN conjunct1]
  obtain s' where r: "run_loop (Suc 0) ?q (Some hi_node) hi_agent = Some (Inr None, s')"
    by (simp add: agent_defs stops_def)
  have e: "executes (new_events hi_agent s') = 1"
    using r by (auto simp add: agent_defs stops_def)
  from cancellation_polling [where s = hi_agent and env = ?q and k = "Suc 0"
      and todo = "Some hi_node" and r = "Inr None" and s' = s',
      THEN conjunct2, THEN conjunct2, THEN conjunct1] r e
  have p: "polls (new_events hi_agent s') = 1"
    by simp
  from r p e have c3: "\<exists>s'. run_loop (Suc 0) ?q (Some hi_node) hi_agent = Some (Inr None, s')
        \<and> polls (new_events hi_agent s') = 1 \<and> executes (new_events hi_agent s') = 1"
    by blast
  obtain s1 where x: "execute_node ?e hi_node hi_agent = (Inr (1, False), s1)"
    by (simp add: agent_defs stops_def)
  have f: "stop_event s1"
    using x by (auto simp add: agent_defs stops_def)
  from cancellation_polling [where s = hi_agent and env = ?e and node = hi_node and k = 0
      and i = 1 and ?s1.0 = s1,
      THEN conjunct2, THEN conjunct2, THEN conjunct2, THEN conjunct1] x f
  have c4: "\<exists>s1 s2. execute_node ?e hi_node hi_agent = (Inr (1, False), s1)
        \<and> stop_event s1
        \<and> run_loop (Suc 0) ?e (Some hi_node) hi_agent = Some (Inr None, s2)
        \<and> trace s2 = trace s1 @ [Poll True]"
    by blast
  obtain s5 where x5: "execute_node ?p hi_node hi_agent = (Inr (1, True), s5)"
    by (simp add: agent_defs stops_def)
  have f5: "stop_event s5"
    using x5 by (auto simp add: agent_defs stops_def)
  from cancellation_polling [where s = hi_agent and env = ?p and node = hi_node and k = 0
      and i = 1 and ?s1.0 = s5,
      THEN conjunct2, THEN conjunct2, THEN conjunct2, THEN conjunct2, THEN conjunct1] x5 f5
  have c5: "\<exists>s1. execute_node ?p hi_node hi_agent = (Inr (1, True), s1)
        \<and> stop_event s1
        \<and> run_loop (Suc 0) ?p (Some hi_node) hi_agent = Some (Inr (Some 1), s1)
        \<and> polls (new_events hi_agent s1) = 0"
    by blast
  obtain s6 where x6: "execute_node ?x hi_node hi_agent = (Inl (Exception (S ''callback'')), s6)"
    by (simp add: agent_defs)
  from cancellation_polling [where s = hi_agent and env = ?x and node = hi_node and k = 0
      and e = "Exception (S ''callback'')" and ?s1.0 = s6,
      THEN conjunct2, THEN conjunct2, THEN conjunct2, THEN conjunct2, THEN conjunct2,
      THEN conjunct1] x6
  have c6: "\<exists>s1. execute_node ?x hi_node hi_agent = (Inl (Exception (S ''callback'')), s1)
        \<and> run_loop (Suc 0) ?x (Some hi_node) hi_agent = Some (Inl (Exception (S ''callback'')), s1)
        \<and> polls (new_events hi_agent s1) = 0"
    by blast
  obtain s7 where x7: "execute_node ?q hi_node hi_agent = (Inr (1, False), s7)"
    by (simp add: agent_defs)
  have f7: "\<not> stop_event s7"
    using x7 by (auto simp add: agent_defs)
  have y7: "yield ?q (world s7) = (False, ())"
    by (simp add: script_env_def)
  from cancellation_polling [where s = hi_agent and env = ?q and node = hi_node and k = 0
      and i = 1 and ?s1.0 = s7 and stopped = False and w = "()",
      THEN conjunct2, THEN conjunct2, THEN conjunct2, THEN conjunct2, THEN conjunct2,
      THEN conjunct2] x7 y7 f7
  have "run_loop (Suc 0) ?q (Some hi_node) hi_agent
      = run_loop 0 ?q (get_todo_node (memory s7))
          (s7\<lparr>world := (), stop_event := False, trace := trace s7 @ [Poll False]\<rparr>)"
    by simp
  with x7 y7 f7 have c7: "\<exists>s1. execute_node ?q hi_node hi_agent = (Inr (1, False), s1)
        \<and> yield ?q (world s1) = (False, ())
        \<and> \<not> stop_event s1
        \<and> run_loop (Suc 0) ?q (Some hi_node) hi_agent
          = run_loop 0 ?q (get_todo_node (memory s1))
              (s1\<lparr>world := (), stop_event := False, trace := trace s1 @ [Poll False]\<rparr>)"
    by blast
  from c1 c2 c3 c4 c5 c6 c7 show ?thesis
    by (intro conjI)
qed

text \<open>
  Claim C8 as stated fails: the callback calls \<^verbatim>\<open>Agent.stop\<close> during a turn in which
  the python interpreter returns \<^verbatim>\<open>is_stop = True\<close>; the run returns the id of the answer
  node and not \<^verbatim>\<open>None\<close>, with the flag set, one turn made and the flag never read.
\<close>

theorem no_poll_counterexample:
  "map_option (\<lambda>(r, s'). (r, stop_event s', executes (trace s'), polls (trace s')))
     (run (Suc 0) (script_env [Token (S ''a'')] [python_interpreter] True stops)
        (Some (S ''hi'')) None fresh_agent)
   = Some (Inr (Some 1), True, 1, 0)"
  by (simp add: run_defs agent_defs stops_def)

subsection \<open>The input node of a run\<close>

text \<open>
  Claim C10. With a \<^verbatim>\<open>for_node_id\<close> that names a node of a tree whose ids are distinct,
  \<^verbatim>\<open>Agent._insert_node\<close> returns a new pending user input node with the input as content,
  put right after the referenced node, and the referenced node is marked success; no other
  node changes. Without \<^verbatim>\<open>for_node_id\<close> the new node is added at the end, and the nodes
  that were there are as they were. \<^verbatim>\<open>Agent.run\<close> does the insertion first: what follows
  (the input interpreters, then the loop over to-do nodes) starts from the memory the insertion
  returned.
\<close>

theorem insert_node_places:
  "(get_node m j = Some for_node \<and> distinct (map node_id (nodes m)) \<longrightarrow>
      (\<exists>node' m' pre post.
           insert_node m inp (Some j) = Inr (node', m')
         \<and> nodes m = pre @ for_node # post
         \<and> nodes m' = pre @ for_node\<lparr>status := Success\<rparr> # node' # post
         \<and> node' = \<lparr>node_id = fresh_id m, role = S ''user'', action = S ''input'',
                     content = inp, status = Pending, parent = Some j\<rparr>))
   \<and> (\<exists>node' m'.
           insert_node m inp None = Inr (node', m')
         \<and> nodes m' = nodes m @ [node']
         \<and> node' = \<lparr>node_id = fresh_id m, role = S ''user'', action = S ''input'',
                     content = inp, status = Pending, parent = current_node m\<rparr>)
   \<and> (insert_node (memory s) inp for_node_id = Inr (node', m') \<longrightarrow>
        run k env (Some inp) for_node_id s
          = (case input_interpreter env node' (s\<lparr>is_running := True, memory := m'\<rparr>) of
               (Some e, s1) \<Rightarrow> Some (Inl e, s1)
             | (None, s1) \<Rightarrow>
                 run_loop k env
                   (case get_todo_node (memory s1) of Some n \<Rightarrow> Some n | None \<Rightarrow> Some node') s1))"
proof -
  have "run k env (Some inp) for_node_id s
          = (case input_interpreter env node' (s\<lparr>is_running := True, memory := m'\<rparr>) of
               (Some e, s1) \<Rightarrow> Some (Inl e, s1)
             | (None, s1) \<Rightarrow>
                 run_loop k env
                   (case get_todo_node (memory s1) of Some n \<Rightarrow> Some n | None \<Rightarrow> Some node') s1)"
    if "insert_node (memory s) inp for_node_id = Inr (node', m')"
    using that by (simp add: run_def Let_def)
  with insert_node_after [of m j for_node inp] insert_node_new [of m inp] show ?thesis
    by auto
qed

theorem insert_node_places_witness:
  "get_node (memory hi_agent) 0 = Some hi_node
   \<and> distinct (map node_id (nodes (memory hi_agent)))
   \<and> insert_node (memory hi_agent) (S ''more'') (Some 0)
       = Inr (\<lparr>node_id = 1, role = S ''user'', action = S ''input'', content = S ''more'',
                status = Pending, parent = Some 0\<rparr>,
              \<lparr>nodes = [hi_node\<lparr>status := Success\<rparr>,
                        \<lparr>node_id = 1, role = S ''user'', action = S ''input'', content = S ''more'',
                          status = Pending, parent = Some 0\<rparr>],
                current_node = Some 0, next_id = 2\<rparr>)
   \<and> (\<exists>node' m'. insert_node (memory hi_agent) (S ''more'') None = Inr (node', m')
         \<and> nodes m' = [hi_node, node'] \<and> status node' = Pending)
   \<and> map_option fst (run (Suc 0) (script_env [Token (S ''a'')] [] False returns)
         (Some (S ''more'')) (Some 0) hi_agent) = Some (Inr None)"
proof -
  let ?n = "\<lparr>node_id = 1, role = S ''user'', action = S ''input'', content = S ''more'',
                status = Pending, parent = Some 0\<rparr>"
  let ?m = "\<lparr>nodes = [hi_node\<lparr>status := Success\<rparr>, ?n], current_node = Some 0, next_id = 2\<rparr>"
  let ?env = "script_env [Token (S ''a'')] [] False returns"
  have g: "get_node (memory hi_agent) 0 = Some hi_node"
    by (simp add: agent_defs)
  have d: "distinct (map node_id (nodes (memory hi_agent)))"
    by (simp add: agent_defs)
  have f: "fresh_id (memory hi_agent) = 1"
    by (simp add: agent_defs)
  have n: "nodes (memory hi_agent) = [hi_node]"
    by (simp add: agent_defs)
  have i: "insert_node (memory hi_agent) (S ''more'') (Some 0) = Inr (?n, ?m)"
    by (simp add: run_defs agent_defs)
  from insert_node_places [of "memory hi_agent" 0 hi_node "S ''more''" hi_agent None ?n ?m "Suc 0" ?env,
      THEN conjunct2, THEN conjunct1] f n
  have b: "\<exists>node' m'. insert_node (memory hi_agent) (S ''more'') None = Inr (node', m')
         \<and> nodes m' = [hi_node, node'] \<and> status node' = Pending"
    by auto
  from insert_node_places [of _ _ _ "S ''more''" hi_agent "Some 0" ?n ?m "Suc 0" ?env] i
  have "run (Suc 0) ?env (Some (S ''more'')) (Some 0) hi_agent
          = (case input_interpreter ?env ?n (hi_agent\<lparr>is_running := True, memory := ?m\<rparr>) of
               (Some e, s1) \<Rightarrow> Some (Inl e, s1)
             | (None, s1) \<Rightarrow>
                 run_loop (Suc 0) ?env
                   (case get_todo_node (memory s1) of Some n \<Rightarrow> Some n | None \<Rightarrow> Some ?n) s1)"
    by blast
  then have r: "map_option fst (run (Suc 0) ?env (Some (S ''more'')) (Some 0) hi_agent) = Some (Inr None)"
    by (simp add: run_defs agent_defs)
  from g d i b r show ?thesis
    by (intro conjI)
qed

subsection \<open>The example of a plan\<close>



end
